theory Spec2Isabelle
  imports Complex_Main
begin

section \<open>Value model\<close>

text \<open>
  The semantics layer of pocketlang (\<^verbatim>\<open>src/src/core.c\<close>) works on tagged values
  (\<^verbatim>\<open>Var\<close>): Null, Bool, Number (a C double) and a reference to a heap object. The
  marker \<^verbatim>\<open>VAR_UNDEF\<close> is the internal "no value" sentinel the code tests with
  \<^verbatim>\<open>IS_UNDEF\<close> (an empty map slot, a missing key); it is never a script value.

  Numbers are modelled by \<open>real\<close>: arithmetic is exact. This agrees with the C double
  wherever the doubles involved are integers of magnitude at most \<open>2 ^ 53\<close> (or other
  values on which the operation is exact, such as one half); NaN, the infinities and
  rounding have no counterpart here.
  An object reference is the index of the object in the heap.
\<close>

datatype ObjectType =
  OBJ_STRING | OBJ_LIST | OBJ_MAP | OBJ_RANGE | OBJ_SCRIPT | OBJ_FUNC | OBJ_FIBER | OBJ_USER

datatype Var = VAR_NULL | VAR_UNDEF | VAR_BOOL bool | VAR_NUM real | VAR_OBJ nat

text \<open>
  Heap objects. A String is its bytes, a List its element buffer, a Map its slot array
  (\<^verbatim>\<open>entries[0 .. capacity)\<close>, each slot a key and a value, the key \<^verbatim>\<open>VAR_UNDEF\<close> in an
  empty or tombstoned slot), a Range its two bounds. The inside of scripts, functions,
  fibers and user objects is not looked at by the functions embedded here.
\<close>

datatype Object =
    ObjString string
  | ObjList "Var list"
  | ObjMap "(Var \<times> Var) list"
  | ObjRange real real
  | ObjScript
  | ObjFunc
  | ObjFiber
  | ObjUser

fun obj_type :: "Object \<Rightarrow> ObjectType" where
  "obj_type (ObjString _) = OBJ_STRING"
| "obj_type (ObjList _) = OBJ_LIST"
| "obj_type (ObjMap _) = OBJ_MAP"
| "obj_type (ObjRange _ _) = OBJ_RANGE"
| "obj_type ObjScript = OBJ_SCRIPT"
| "obj_type ObjFunc = OBJ_FUNC"
| "obj_type ObjFiber = OBJ_FIBER"
| "obj_type ObjUser = OBJ_USER"

section \<open>Errors, outcomes and the VM state\<close>

text \<open>
  The code reports an error by storing a message String in \<^verbatim>\<open>vm->fiber->error\<close>. The
  messages are built by \<^verbatim>\<open>newString\<close> and \<^verbatim>\<open>stringFormat\<close>; the model keeps the template
  and its arguments, one constructor per message of the embedded functions:
  \<^item> \<open>InvalidArgumentCount\<close>: "Invalid argument count."
  \<^item> \<open>AssertionFailed\<close>: "Assertion failed."
  \<^item> \<open>AssertionFailedMsg m\<close>: "Assertion failed: '@'." with the message string \<open>m\<close>
  \<^item> \<open>MustBeNumeric n\<close>: "$ must be a numeric value."
  \<^item> \<open>MustBeInteger n\<close>: "$ must be an integer."
  \<^item> \<open>IndexOutOfRange c\<close>: "$ index out of range."
  \<^item> \<open>UnsupportedOperandTypes op v1 v2\<close>: "Unsupported operand types for operator
    'op' $ and $" with the type names of \<open>v1\<close> and \<open>v2\<close>
  \<^item> \<open>NotSubscriptable v\<close>: "$ type is not subscriptable." with the type name of \<open>v\<close>
  \<^item> \<open>StringImmutable\<close>: "String objects are immutable."
  \<^item> \<open>NotHashable v\<close>: "$ type is not hashable." with the type name of \<open>v\<close>
  \<^item> \<open>InvalidKey k\<close>: "Invalid key '@'." and \<open>KeyNotExists k\<close>: "Key '@' not exists",
    with the string form of the key
  \<^item> \<open>NullNotIterable\<close>, \<open>BoolNotIterable\<close>, \<open>NumberNotIterable\<close>: "Null is not
    iterable." and its two siblings.
  The message Strings themselves, and the temporary Strings \<^verbatim>\<open>toString\<close> makes for
  them, are not put on the model's heap.
  In the spec's taxonomy \<open>UnsupportedOperandTypes\<close>, \<open>MustBeNumeric\<close> and
  \<open>MustBeInteger\<close> are TypeMismatch errors, \<open>IndexOutOfRange\<close> is IndexOutOfRange and
  \<open>InvalidArgumentCount\<close> is ArgumentCount.
\<close>

datatype MsgString = Content string | ToStringOf Var

datatype Error =
    InvalidArgumentCount
  | AssertionFailed
  | AssertionFailedMsg MsgString
  | MustBeNumeric string
  | MustBeInteger string
  | IndexOutOfRange string
  | UnsupportedOperandTypes string Var Var
  | NotSubscriptable Var
  | StringImmutable
  | NotHashable Var
  | InvalidKey Var
  | KeyNotExists Var
  | NullNotIterable
  | BoolNotIterable
  | NumberNotIterable

text \<open>
  A call either returns, or the process is aborted (\<open>Abort\<close>), or the C program has no
  defined behaviour (\<open>UB\<close>: a dangling or non-object pointer is dereferenced, an
  iterator outside the range of \<^verbatim>\<open>int32_t\<close> is cast to it, an \<^verbatim>\<open>UNREACHABLE()\<close> is reached,
  a slot outside the call's stack window is read), or its result is a double that is not
  finite (\<open>NonFinite\<close>: a division or \<^verbatim>\<open>fmod\<close> by zero), which \<open>real\<close> cannot hold.

  Modelled from the spec: the macros \<^verbatim>\<open>TODO\<close> and \<^verbatim>\<open>__ASSERT\<close> are not defined in
  \<^verbatim>\<open>core.c\<close>. The spec calls the \<^verbatim>\<open>TODO\<close> places unimplemented placeholders that
  "must surface an explicit not-yet-supported condition" and never silently succeed,
  and a failed \<^verbatim>\<open>__ASSERT\<close> a host programming error that is not recoverable: both
  are \<open>Abort\<close>, the call does not return and sets no error.
\<close>

datatype 'a outcome = Returns 'a | Abort | UB | NonFinite

fun obind :: "'a outcome \<Rightarrow> ('a \<Rightarrow> 'b outcome) \<Rightarrow> 'b outcome" where
  "obind (Returns x) f = f x"
| "obind Abort f = Abort"
| "obind UB f = UB"
| "obind NonFinite f = NonFinite"

text \<open>
  The state the embedded functions read and write: the heap of objects, the error
  channel of the running fiber (\<open>None\<close> is the C \<^verbatim>\<open>NULL\<close>) and the fiber's stack window
  of the current native call, \<^verbatim>\<open>ret[0 .. sp - ret)\<close>: slot 0 is the return slot, slots
  1 to \<^verbatim>\<open>ARGC\<close> hold the arguments. Objects are never freed in the model.
\<close>

record PKVM =
  heap :: "Object list"
  fiber_error :: "Error option"
  fiber_ret :: "Var list"

definition deref :: "PKVM \<Rightarrow> nat \<Rightarrow> Object option" where
  "deref vm p = (if p < length (heap vm) then Some (heap vm ! p) else None)"

definition set_error :: "PKVM \<Rightarrow> Error \<Rightarrow> PKVM" where
  "set_error vm e = vm\<lparr>fiber_error := Some e\<rparr>"

definition newStringLength :: "PKVM \<Rightarrow> string \<Rightarrow> nat \<times> PKVM" where
  "newStringLength vm s = (length (heap vm), vm\<lparr>heap := heap vm @ [ObjString s]\<rparr>)"

definition ARGC :: "PKVM \<Rightarrow> int" where
  "ARGC vm = int (length (fiber_ret vm)) - 1"

definition ARG :: "PKVM \<Rightarrow> int \<Rightarrow> Var option" where
  "ARG vm n = (if 0 \<le> n \<and> n < int (length (fiber_ret vm))
               then Some (fiber_ret vm ! nat n) else None)"

definition RET :: "PKVM \<Rightarrow> Var \<Rightarrow> PKVM" where
  "RET vm v = vm\<lparr>fiber_ret := (fiber_ret vm)[0 := v]\<rparr>"

section \<open>Integer conversions\<close>

text \<open>
  \<^verbatim>\<open>trunc\<close> rounds towards zero. The cast \<^verbatim>\<open>(int32_t)d\<close> of a double is defined by C
  only when the truncated value is representable: \<open>cast_int32\<close>, with \<open>None\<close> where C
  defines nothing. \<^verbatim>\<open>validateIngeger\<close> applies the cast to a number a script supplies,
  which can be any integer; there the model takes the value the conversion gives when
  the code runs, \<^verbatim>\<open>INT32_MIN\<close> for every value out of range: \<open>int32_of_double\<close>. The
  iterator of \<^verbatim>\<open>varIterate\<close> is made by \<^verbatim>\<open>varIterate\<close> itself and is read with the cast as C
  defines it.
  \<open>uint32_of_int32\<close> is the conversion of an \<^verbatim>\<open>int32_t\<close> assigned to a \<^verbatim>\<open>uint32_t\<close>,
  \<open>int32_of_uint32\<close> the conversion \<^verbatim>\<open>(int)count\<close> of an unsigned 32-bit count.
\<close>

definition trunc :: "real \<Rightarrow> real" where
  "trunc d = (if 0 \<le> d then of_int \<lfloor>d\<rfloor> else of_int \<lceil>d\<rceil>)"

definition cast_int32 :: "real \<Rightarrow> int option" where
  "cast_int32 d =
     (let t = (if 0 \<le> d then \<lfloor>d\<rfloor> else \<lceil>d\<rceil>)
      in if - (2 ^ 31) \<le> t \<and> t < 2 ^ 31 then Some t else None)"

definition int32_of_double :: "real \<Rightarrow> int" where
  "int32_of_double d = (case cast_int32 d of Some i \<Rightarrow> i | None \<Rightarrow> - (2 ^ 31))"

definition uint32_of_int32 :: "int \<Rightarrow> nat" where
  "uint32_of_int32 i = nat (i mod 2 ^ 32)"

definition int32_of_uint32 :: "nat \<Rightarrow> int" where
  "int32_of_uint32 n =
     (if n mod 2 ^ 32 < 2 ^ 31 then int (n mod 2 ^ 32) else int (n mod 2 ^ 32) - 2 ^ 32)"

section \<open>Helpers that are not in core.c\<close>

text \<open>
  Modelled from the spec: \<^verbatim>\<open>toBool\<close> is declared outside \<^verbatim>\<open>core.c\<close>. The spec's
  truthiness rule: "Null and Bool(false) are false; every other value, including 0,
  empty string, empty List/Map, is true."
\<close>

fun toBool :: "Var \<Rightarrow> bool" where
  "toBool VAR_NULL = False"
| "toBool (VAR_BOOL b) = b"
| "toBool _ = True"

text \<open>
  Modelled from the spec: \<^verbatim>\<open>isObjectHashable\<close> is declared outside \<^verbatim>\<open>core.c\<close>. The
  spec: "only values flagged hashable (all primitives; String among objects) may be
  keys", and the non-hashable object kinds are "List, Map, Range, Function, Script,
  Fiber, UserObj".
\<close>

fun isObjectHashable :: "ObjectType \<Rightarrow> bool" where
  "isObjectHashable OBJ_STRING = True"
| "isObjectHashable _ = False"

text \<open>
  Modelled from the spec: \<^verbatim>\<open>mapGet\<close> and \<^verbatim>\<open>mapSet\<close> are defined outside \<^verbatim>\<open>core.c\<close>;
  only the slot array they work on is visible there (\<^verbatim>\<open>varIterate\<close> reads
  \<^verbatim>\<open>map->capacity\<close> and \<^verbatim>\<open>map->entries[i].key\<close>). The spec: a Map is a "hash table from
  Value to Value", a set is an "upsert", an empty or tombstoned slot is skipped by a
  lookup, and \<^verbatim>\<open>mapGet\<close> answers \<^verbatim>\<open>VAR_UNDEF\<close> for an absent key (the code tests
  \<^verbatim>\<open>IS_UNDEF\<close> on its result). Keys are compared as values, two Strings by content.
  Which free slot a new key takes depends on the hash function, which the spec leaves
  open: the model takes the first free slot and grows the table by one slot when
  there is none.
\<close>

definition isValuesEqual :: "Object list \<Rightarrow> Var \<Rightarrow> Var \<Rightarrow> bool" where
  "isValuesEqual h a b =
     (a = b \<or>
      (case (a, b) of
         (VAR_OBJ p, VAR_OBJ q) \<Rightarrow>
           p < length h \<and> q < length h \<and>
           (case (h ! p, h ! q) of
              (ObjString s, ObjString t) \<Rightarrow> s = t
            | _ \<Rightarrow> False)
       | _ \<Rightarrow> False))"

fun mapFindSlot :: "Object list \<Rightarrow> (Var \<times> Var) list \<Rightarrow> Var \<Rightarrow> nat option" where
  "mapFindSlot h [] k = None"
| "mapFindSlot h (e # es) k =
     (if fst e \<noteq> VAR_UNDEF \<and> isValuesEqual h (fst e) k then Some 0
      else map_option Suc (mapFindSlot h es k))"

fun mapFreeSlot :: "(Var \<times> Var) list \<Rightarrow> nat option" where
  "mapFreeSlot [] = None"
| "mapFreeSlot (e # es) =
     (if fst e = VAR_UNDEF then Some 0 else map_option Suc (mapFreeSlot es))"

definition mapGet :: "Object list \<Rightarrow> (Var \<times> Var) list \<Rightarrow> Var \<Rightarrow> Var" where
  "mapGet h es k =
     (case mapFindSlot h es k of Some i \<Rightarrow> snd (es ! i) | None \<Rightarrow> VAR_UNDEF)"

definition mapSet :: "Object list \<Rightarrow> (Var \<times> Var) list \<Rightarrow> Var \<Rightarrow> Var \<Rightarrow> (Var \<times> Var) list" where
  "mapSet h es k v =
     (case mapFindSlot h es k of
        Some i \<Rightarrow> es[i := (fst (es ! i), v)]
      | None \<Rightarrow>
          (case mapFreeSlot es of
             Some i \<Rightarrow> es[i := (k, v)]
           | None \<Rightarrow> es @ [(k, v)]))"

section \<open>Validators\<close>

fun isNumeric :: "Var \<Rightarrow> real option" where
  "isNumeric (VAR_BOOL b) = Some (if b then 1 else 0)"
| "isNumeric (VAR_NUM d) = Some d"
| "isNumeric _ = None"

definition validateNumeric :: "PKVM \<Rightarrow> Var \<Rightarrow> string \<Rightarrow> real option \<times> PKVM" where
  "validateNumeric vm var name =
     (case isNumeric var of
        Some d \<Rightarrow> (Some d, vm)
      | None \<Rightarrow> (None, set_error vm (MustBeNumeric name)))"

definition validateIngeger :: "PKVM \<Rightarrow> Var \<Rightarrow> string \<Rightarrow> (int option \<times> PKVM) outcome" where
  "validateIngeger vm var name =
     (case isNumeric var of
        Some number \<Rightarrow>
          (if trunc number = number
           then Returns (Some (int32_of_double (trunc number)), vm)
           else Returns (None, set_error vm (MustBeInteger name)))
      | None \<Rightarrow> Returns (None, set_error vm (MustBeInteger name)))"

definition validateIndex :: "PKVM \<Rightarrow> int \<Rightarrow> int \<Rightarrow> string \<Rightarrow> bool \<times> PKVM" where
  "validateIndex vm index sz container =
     (if index < 0 \<or> sz \<le> index
      then (False, set_error vm (IndexOutOfRange container))
      else (True, vm))"

section \<open>Native functions\<close>

text \<open>
  \<^verbatim>\<open>pkGetArgBool\<close> returns its success flag and the extracted boolean (the out
  parameter \<^verbatim>\<open>*value\<close>). \<^verbatim>\<open>CHECK_GET_ARG_API_ERRORS\<close> asserts
  \<^verbatim>\<open>arg > 0 || arg < ARGC\<close>; the model is of a running VM (\<^verbatim>\<open>vm->fiber\<close> is not NULL)
  called with a non-NULL out parameter.
\<close>

definition pkGetArgBool :: "PKVM \<Rightarrow> int \<Rightarrow> (bool \<times> bool \<times> PKVM) outcome" where
  "pkGetArgBool vm arg =
     (if \<not> (arg > 0 \<or> arg < ARGC vm) then Abort
      else (case ARG vm arg of
              None \<Rightarrow> UB
            | Some val \<Rightarrow> Returns (True, toBool val, vm)))"

text \<open>
  \<^verbatim>\<open>coreAssert\<close> reads \<^verbatim>\<open>AS_OBJ(ARG2)->type\<close> without asking \<^verbatim>\<open>IS_OBJ(ARG2)\<close> first: for
  a message that is not an object the pointer is not one, and the read is undefined.
  The string form of an object that is not a String is made by \<^verbatim>\<open>toString\<close>, which is
  not in \<^verbatim>\<open>core.c\<close>: the message keeps it as \<open>ToStringOf\<close>.
\<close>

definition coreAssert :: "PKVM \<Rightarrow> PKVM outcome" where
  "coreAssert vm =
     (let argc = ARGC vm in
      if argc \<noteq> 1 \<and> argc \<noteq> 2 then Returns (set_error vm InvalidArgumentCount)
      else (case ARG vm 1 of
              None \<Rightarrow> UB
            | Some arg1 \<Rightarrow>
                if \<not> toBool arg1 then
                  (if argc = 2 then
                     (case ARG vm 2 of
                        Some (VAR_OBJ p) \<Rightarrow>
                          (case deref vm p of
                             None \<Rightarrow> UB
                           | Some (ObjString s) \<Rightarrow>
                               Returns (set_error vm (AssertionFailedMsg (Content s)))
                           | Some _ \<Rightarrow>
                               Returns (set_error vm (AssertionFailedMsg (ToStringOf (VAR_OBJ p)))))
                      | _ \<Rightarrow> UB)
                   else Returns (set_error vm AssertionFailed))
                else Returns vm))"

text \<open>
  \<^verbatim>\<open>coreHash\<close> calls \<^verbatim>\<open>varHashValue(ARG1)\<close>, which is not in \<^verbatim>\<open>core.c\<close>: it is the
  parameter \<open>varHashValue\<close>, from the heap and a value to the 32-bit hash. The call
  passes no VM, so it cannot touch the error channel.
\<close>

definition coreHash :: "(Object list \<Rightarrow> Var \<Rightarrow> nat) \<Rightarrow> PKVM \<Rightarrow> PKVM outcome" where
  "coreHash varHashValue vm =
     (case ARG vm 1 of
        None \<Rightarrow> UB
      | Some (VAR_OBJ p) \<Rightarrow>
          (case deref vm p of
             None \<Rightarrow> UB
           | Some ob \<Rightarrow>
               if \<not> isObjectHashable (obj_type ob) then Returns (RET vm VAR_NULL)
               else Returns (RET vm (VAR_NUM (real (varHashValue (heap vm) (VAR_OBJ p))))))
      | Some arg1 \<Rightarrow> Returns (RET vm (VAR_NUM (real (varHashValue (heap vm) arg1)))))"

section \<open>Operators\<close>

definition UNSUPPORT_OPERAND_TYPES :: "string \<Rightarrow> PKVM \<Rightarrow> Var \<Rightarrow> Var \<Rightarrow> (Var \<times> PKVM) outcome" where
  "UNSUPPORT_OPERAND_TYPES opr vm v1 v2 =
     Returns (VAR_NULL, set_error vm (UnsupportedOperandTypes opr v1 v2))"

definition numericRight ::
  "PKVM \<Rightarrow> Var \<Rightarrow> (real \<Rightarrow> (Var \<times> PKVM) outcome) \<Rightarrow> (Var \<times> PKVM) outcome" where
  "numericRight vm v2 f =
     (case validateNumeric vm v2 ''Right operand'' of
        (Some d2, vm') \<Rightarrow> f d2
      | (None, vm') \<Rightarrow> Returns (VAR_NULL, vm'))"

definition varAdd :: "PKVM \<Rightarrow> Var \<Rightarrow> Var \<Rightarrow> (Var \<times> PKVM) outcome" where
  "varAdd vm v1 v2 =
     (case isNumeric v1 of
        Some d1 \<Rightarrow> numericRight vm v2 (\<lambda>d2. Returns (VAR_NUM (d1 + d2), vm))
      | None \<Rightarrow>
          (case (v1, v2) of
             (VAR_OBJ p1, VAR_OBJ p2) \<Rightarrow>
               (case deref vm p1 of
                  None \<Rightarrow> UB
                | Some (ObjString s1) \<Rightarrow>
                    (case deref vm p2 of
                       None \<Rightarrow> UB
                     | Some (ObjString s2) \<Rightarrow>
                         (case newStringLength vm (s1 @ s2) of
                            (c, vm') \<Rightarrow> Returns (VAR_OBJ c, vm'))
                     | Some _ \<Rightarrow> UNSUPPORT_OPERAND_TYPES ''+'' vm v1 v2)
                | Some (ObjList _) \<Rightarrow> Abort
                | Some _ \<Rightarrow> UNSUPPORT_OPERAND_TYPES ''+'' vm v1 v2)
           | _ \<Rightarrow> UNSUPPORT_OPERAND_TYPES ''+'' vm v1 v2))"

definition varSubtract :: "PKVM \<Rightarrow> Var \<Rightarrow> Var \<Rightarrow> (Var \<times> PKVM) outcome" where
  "varSubtract vm v1 v2 =
     (case isNumeric v1 of
        Some d1 \<Rightarrow> numericRight vm v2 (\<lambda>d2. Returns (VAR_NUM (d1 - d2), vm))
      | None \<Rightarrow> UNSUPPORT_OPERAND_TYPES ''-'' vm v1 v2)"

definition varMultiply :: "PKVM \<Rightarrow> Var \<Rightarrow> Var \<Rightarrow> (Var \<times> PKVM) outcome" where
  "varMultiply vm v1 v2 =
     (case isNumeric v1 of
        Some d1 \<Rightarrow> numericRight vm v2 (\<lambda>d2. Returns (VAR_NUM (d1 * d2), vm))
      | None \<Rightarrow> UNSUPPORT_OPERAND_TYPES ''*'' vm v1 v2)"

definition varDivide :: "PKVM \<Rightarrow> Var \<Rightarrow> Var \<Rightarrow> (Var \<times> PKVM) outcome" where
  "varDivide vm v1 v2 =
     (case isNumeric v1 of
        Some d1 \<Rightarrow>
          numericRight vm v2
            (\<lambda>d2. if d2 = 0 then NonFinite else Returns (VAR_NUM (d1 / d2), vm))
      | None \<Rightarrow> UNSUPPORT_OPERAND_TYPES ''/'' vm v1 v2)"

definition fmod :: "real \<Rightarrow> real \<Rightarrow> real" where
  "fmod x y = x - y * trunc (x / y)"

definition varModulo :: "PKVM \<Rightarrow> Var \<Rightarrow> Var \<Rightarrow> (Var \<times> PKVM) outcome" where
  "varModulo vm v1 v2 =
     (case isNumeric v1 of
        Some d1 \<Rightarrow>
          numericRight vm v2
            (\<lambda>d2. if d2 = 0 then NonFinite else Returns (VAR_NUM (fmod d1 d2), vm))
      | None \<Rightarrow>
          (case v1 of
             VAR_OBJ p \<Rightarrow>
               (case deref vm p of
                  None \<Rightarrow> UB
                | Some (ObjString s) \<Rightarrow> Abort
                | Some _ \<Rightarrow> UNSUPPORT_OPERAND_TYPES ''%'' vm v1 v2)
           | _ \<Rightarrow> UNSUPPORT_OPERAND_TYPES ''%'' vm v1 v2))"

definition varGreater :: "PKVM \<Rightarrow> Var \<Rightarrow> Var \<Rightarrow> (bool \<times> PKVM) outcome" where
  "varGreater vm v1 v2 =
     (case isNumeric v1 of
        Some d1 \<Rightarrow>
          (case isNumeric v2 of
             Some d2 \<Rightarrow> Returns (d1 > d2, vm)
           | None \<Rightarrow> Abort)
      | None \<Rightarrow> Abort)"

definition varLesser :: "PKVM \<Rightarrow> Var \<Rightarrow> Var \<Rightarrow> (bool \<times> PKVM) outcome" where
  "varLesser vm v1 v2 =
     (case isNumeric v1 of
        Some d1 \<Rightarrow>
          (case isNumeric v2 of
             Some d2 \<Rightarrow> Returns (d1 < d2, vm)
           | None \<Rightarrow> Abort)
      | None \<Rightarrow> Abort)"

section \<open>Subscript protocol\<close>

definition varGetSubscript :: "PKVM \<Rightarrow> Var \<Rightarrow> Var \<Rightarrow> (Var \<times> PKVM) outcome" where
  "varGetSubscript vm on key =
     (case on of
        VAR_OBJ p \<Rightarrow>
          (case deref vm p of
             None \<Rightarrow> UB
           | Some (ObjString s) \<Rightarrow>
               obind (validateIngeger vm key ''List index'')
                 (\<lambda>(r, vm1). case r of
                    None \<Rightarrow> Returns (VAR_NULL, vm1)
                  | Some index \<Rightarrow>
                      (case validateIndex vm1 index (int32_of_uint32 (length s)) ''String'' of
                         (ok, vm2) \<Rightarrow>
                           if \<not> ok then Returns (VAR_NULL, vm2)
                           else (case newStringLength vm2 [s ! nat index] of
                                   (c, vm3) \<Rightarrow> Returns (VAR_OBJ c, vm3))))
           | Some (ObjList elems) \<Rightarrow>
               obind (validateIngeger vm key ''List index'')
                 (\<lambda>(r, vm1). case r of
                    None \<Rightarrow> Returns (VAR_NULL, vm1)
                  | Some index \<Rightarrow>
                      (case validateIndex vm1 index (int32_of_uint32 (length elems)) ''List'' of
                         (ok, vm2) \<Rightarrow>
                           if \<not> ok then Returns (VAR_NULL, vm2)
                           else Returns (elems ! nat index, vm2)))
           | Some (ObjMap es) \<Rightarrow>
               (let v = mapGet (heap vm) es key in
                if v = VAR_UNDEF then
                  (case key of
                     VAR_OBJ kp \<Rightarrow>
                       (case deref vm kp of
                          None \<Rightarrow> UB
                        | Some ko \<Rightarrow>
                            if \<not> isObjectHashable (obj_type ko)
                            then Returns (VAR_NULL, set_error vm (InvalidKey key))
                            else Returns (VAR_NULL, set_error vm (KeyNotExists key)))
                   | _ \<Rightarrow> Returns (VAR_NULL, set_error vm (KeyNotExists key)))
                else Returns (v, vm))
           | Some _ \<Rightarrow> Abort)
      | _ \<Rightarrow> Returns (VAR_NULL, set_error vm (NotSubscriptable on)))"

definition varsetSubscript :: "PKVM \<Rightarrow> Var \<Rightarrow> Var \<Rightarrow> Var \<Rightarrow> PKVM outcome" where
  "varsetSubscript vm on key v =
     (case on of
        VAR_OBJ p \<Rightarrow>
          (case deref vm p of
             None \<Rightarrow> UB
           | Some (ObjString s) \<Rightarrow> Returns (set_error vm StringImmutable)
           | Some (ObjList elems) \<Rightarrow>
               obind (validateIngeger vm key ''List index'')
                 (\<lambda>(r, vm1). case r of
                    None \<Rightarrow> Returns vm1
                  | Some index \<Rightarrow>
                      (case validateIndex vm1 index (int32_of_uint32 (length elems)) ''List'' of
                         (ok, vm2) \<Rightarrow>
                           if \<not> ok then Returns vm2
                           else Returns
                             (vm2\<lparr>heap := (heap vm2)[p := ObjList (elems[nat index := v])]\<rparr>)))
           | Some (ObjMap es) \<Rightarrow>
               (case key of
                  VAR_OBJ kp \<Rightarrow>
                    (case deref vm kp of
                       None \<Rightarrow> UB
                     | Some ko \<Rightarrow>
                         if \<not> isObjectHashable (obj_type ko)
                         then Returns (set_error vm (NotHashable key))
                         else Returns
                           (vm\<lparr>heap := (heap vm)[p := ObjMap (mapSet (heap vm) es key v)]\<rparr>))
                | _ \<Rightarrow>
                    Returns (vm\<lparr>heap := (heap vm)[p := ObjMap (mapSet (heap vm) es key v)]\<rparr>))
           | Some _ \<Rightarrow> Abort)
      | _ \<Rightarrow> Returns (set_error vm (NotSubscriptable on)))"

section \<open>Iteration protocol\<close>

text \<open>
  \<^verbatim>\<open>uint32_t iter = 0; if (IS_NUM(*iterator)) iter = _AS_INTEGER(*iterator);\<close> where
  \<^verbatim>\<open>_AS_INTEGER(var)\<close> is \<^verbatim>\<open>(int32_t)trunc(AS_NUM(var))\<close>.
\<close>

definition iter_of :: "Var \<Rightarrow> nat option" where
  "iter_of iterator =
     (case iterator of
        VAR_NUM d \<Rightarrow> map_option uint32_of_int32 (cast_int32 (trunc d))
      | _ \<Rightarrow> Some 0)"

text \<open>
  The loop of the Map case:
  \<^verbatim>\<open>for (; iter < map->capacity; iter++) if (!IS_UNDEF(map->entries[iter].key)) break;\<close>
  The capacity is the number of slots.
\<close>

function mapNextSlot :: "(Var \<times> Var) list \<Rightarrow> nat \<Rightarrow> nat" where
  "mapNextSlot es iter =
     (if iter < length es
      then (if fst (es ! iter) \<noteq> VAR_UNDEF then iter else mapNextSlot es (iter + 1))
      else iter)"
  by pat_completeness auto
termination
  by (relation "measure (\<lambda>(es, iter). length es - iter)") auto

declare mapNextSlot.simps [simp del]

text \<open>
  \<^verbatim>\<open>varIterate\<close> gets the sequence and the two in-out parameters \<^verbatim>\<open>*iterator\<close> and
  \<^verbatim>\<open>*value\<close>; it returns its flag and the two parameters as it leaves them.
\<close>

definition varIterate :: "PKVM \<Rightarrow> Var \<Rightarrow> Var \<Rightarrow> Var \<Rightarrow> (bool \<times> Var \<times> Var \<times> PKVM) outcome" where
  "varIterate vm seq iterator v =
     (case seq of
        VAR_NULL \<Rightarrow> Returns (False, iterator, VAR_NULL, set_error vm NullNotIterable)
      | VAR_BOOL b \<Rightarrow> Returns (False, iterator, VAR_NULL, set_error vm BoolNotIterable)
      | VAR_NUM d \<Rightarrow> Returns (False, iterator, VAR_NULL, set_error vm NumberNotIterable)
      | VAR_UNDEF \<Rightarrow> UB
      | VAR_OBJ p \<Rightarrow>
          (case iter_of iterator of
             None \<Rightarrow> UB
           | Some iter \<Rightarrow>
               (case deref vm p of
                  None \<Rightarrow> UB
                | Some (ObjString s) \<Rightarrow>
                    if iter \<ge> length s then Returns (False, iterator, v, vm)
                    else (case newStringLength vm [s ! iter] of
                            (c, vm') \<Rightarrow> Returns (True, VAR_NUM (real iter + 1), VAR_OBJ c, vm'))
                | Some (ObjList elems) \<Rightarrow>
                    if iter \<ge> length elems then Returns (False, iterator, v, vm)
                    else Returns (True, VAR_NUM (real iter + 1), elems ! iter, vm)
                | Some (ObjMap es) \<Rightarrow>
                    (let iter' = mapNextSlot es iter in
                     if iter' \<ge> length es then Returns (False, iterator, v, vm)
                     else Returns (True, VAR_NUM (real iter' + 1), fst (es ! iter'), vm))
                | Some (ObjRange from to) \<Rightarrow>
                    if from = to then Returns (False, iterator, v, vm)
                    else (let current = (if from \<le> to then from + real iter
                                         else from - real iter) in
                          if current = to then Returns (False, iterator, v, vm)
                          else Returns (True, VAR_NUM (real iter + 1), VAR_NUM current, vm))
                | Some _ \<Rightarrow> Abort)))"

text \<open>
  A chain of \<^verbatim>\<open>varIterate\<close> calls on one sequence, as a \<^verbatim>\<open>for\<close> loop of a script makes
  them: each call gets the iterator the previous one left. \<open>iterate_from n\<close> makes at
  most \<open>n\<close> calls. It returns each yielded value with the iterator state after that
  step, and whether the chain has stopped (a call returned false) within the \<open>n\<close>
  calls.
\<close>

fun iterate_from :: "nat \<Rightarrow> PKVM \<Rightarrow> Var \<Rightarrow> Var \<Rightarrow> ((Var \<times> Var) list \<times> bool) outcome" where
  "iterate_from 0 vm seq iterator = Returns ([], False)"
| "iterate_from (Suc n) vm seq iterator =
     obind (varIterate vm seq iterator VAR_NULL)
       (\<lambda>(more, iterator', v, vm').
          if more
          then obind (iterate_from n vm' seq iterator')
                 (\<lambda>(steps, stopped). Returns ((v, iterator') # steps, stopped))
          else Returns ([], True))"

section \<open>Notions the properties are stated with\<close>

text \<open>
  A value is a valid reference when, being an object reference, it points into the
  heap. \<open>obj_kind\<close> is the kind of the object a value refers to (\<open>None\<close> for a value
  that is not an object). \<open>sets_type_mismatch\<close> holds of a call that returned with a
  TypeMismatch message on the error channel.
\<close>

definition valid_ref :: "PKVM \<Rightarrow> Var \<Rightarrow> bool" where
  "valid_ref vm v = (case v of VAR_OBJ p \<Rightarrow> p < length (heap vm) | _ \<Rightarrow> True)"

definition obj_kind :: "PKVM \<Rightarrow> Var \<Rightarrow> ObjectType option" where
  "obj_kind vm v = (case v of VAR_OBJ p \<Rightarrow> map_option obj_type (deref vm p) | _ \<Rightarrow> None)"

fun is_type_mismatch :: "Error \<Rightarrow> bool" where
  "is_type_mismatch (UnsupportedOperandTypes opr v1 v2) = True"
| "is_type_mismatch (MustBeNumeric n) = True"
| "is_type_mismatch (MustBeInteger n) = True"
| "is_type_mismatch _ = False"

definition sets_type_mismatch :: "('a \<times> PKVM) outcome \<Rightarrow> bool" where
  "sets_type_mismatch r =
     (case r of
        Returns (x, vm') \<Rightarrow>
          (case fiber_error vm' of Some e \<Rightarrow> is_type_mismatch e | None \<Rightarrow> False)
      | _ \<Rightarrow> False)"

text \<open>
  A key is hashable when it is a primitive value or refers to an object of a hashable
  kind; it is non-hashable when it refers to an object of another kind.
\<close>

definition hashable_key :: "PKVM \<Rightarrow> Var \<Rightarrow> bool" where
  "hashable_key vm k =
     (case k of
        VAR_OBJ kp \<Rightarrow>
          (case deref vm kp of Some ko \<Rightarrow> isObjectHashable (obj_type ko) | None \<Rightarrow> False)
      | VAR_UNDEF \<Rightarrow> False
      | _ \<Rightarrow> True)"

definition non_hashable_key :: "PKVM \<Rightarrow> Var \<Rightarrow> bool" where
  "non_hashable_key vm k =
     (case k of
        VAR_OBJ kp \<Rightarrow>
          (case deref vm kp of Some ko \<Rightarrow> \<not> isObjectHashable (obj_type ko) | None \<Rightarrow> False)
      | _ \<Rightarrow> False)"

text \<open>
  A slot of a Map is occupied when its key is not \<^verbatim>\<open>VAR_UNDEF\<close>. \<open>map_steps es k\<close> are the
  steps an iteration of the slot array \<open>es\<close> makes from slot \<open>k\<close> on: the key of each
  occupied slot, in ascending slot order, with the slot index plus one as the iterator
  state. \<open>counts_steps\<close> holds of a chain whose iterator state after the \<open>j\<close>-th
  successful call is the Number \<open>j\<close>: the state counts the completed steps.
\<close>

definition occupied :: "(Var \<times> Var) list \<Rightarrow> nat \<Rightarrow> bool" where
  "occupied es i = (fst (es ! i) \<noteq> VAR_UNDEF)"

definition map_steps :: "(Var \<times> Var) list \<Rightarrow> nat \<Rightarrow> (Var \<times> Var) list" where
  "map_steps es k =
     map (\<lambda>i. (fst (es ! i), VAR_NUM (real (Suc i)))) (filter (occupied es) [k..<length es])"

definition counts_steps :: "(Var \<times> Var) list \<Rightarrow> bool" where
  "counts_steps steps = (map snd steps = map (\<lambda>j. VAR_NUM (real (Suc j))) [0..<length steps])"

definition steps_count_from :: "nat \<Rightarrow> (Var \<times> Var) list \<Rightarrow> bool" where
  "steps_count_from k steps =
     (map snd steps = map (\<lambda>j. VAR_NUM (real (Suc j))) [k..<k + length steps])"

text \<open>
  \<open>range_values_before lo hi\<close> holds of a chain on \<open>Range(lo, hi)\<close> all of whose values
  lie between \<open>lo\<close> and \<open>hi\<close>, \<open>hi\<close> excluded: the iteration has not reached \<open>hi\<close>.
  \<open>range_at lo hi k\<close> is the value the Range case computes at iterator position \<open>k\<close>.
\<close>

definition range_values_before :: "real \<Rightarrow> real \<Rightarrow> (Var \<times> Var) list \<Rightarrow> bool" where
  "range_values_before lo hi steps =
     list_all (\<lambda>(v, s). case v of
                 VAR_NUM x \<Rightarrow> (if lo \<le> hi then lo \<le> x \<and> x < hi else hi < x \<and> x \<le> lo)
               | _ \<Rightarrow> False) steps"

definition range_at :: "real \<Rightarrow> real \<Rightarrow> nat \<Rightarrow> Var" where
  "range_at lo hi k = VAR_NUM (if lo \<le> hi then lo + real k else lo - real k)"

section \<open>Example states\<close>

text \<open>Concrete VM states for the closed theorems below.\<close>

definition vm_bool_arg :: PKVM where
  "vm_bool_arg = \<lparr>heap = [], fiber_error = None, fiber_ret = [VAR_NULL, VAR_NUM 0]\<rparr>"

definition vm_hash_list :: PKVM where
  "vm_hash_list =
     \<lparr>heap = [ObjList []], fiber_error = None, fiber_ret = [VAR_UNDEF, VAR_OBJ 0]\<rparr>"

definition vm_two_lists :: PKVM where
  "vm_two_lists =
     \<lparr>heap = [ObjList [], ObjList []], fiber_error = None, fiber_ret = []\<rparr>"

definition vm_assert_num :: PKVM where
  "vm_assert_num =
     \<lparr>heap = [], fiber_error = None, fiber_ret = [VAR_NULL, VAR_BOOL False, VAR_NUM 42]\<rparr>"

definition vm_one_list :: PKVM where
  "vm_one_list =
     \<lparr>heap = [ObjList [VAR_NULL, VAR_BOOL True, VAR_NUM 3]], fiber_error = None, fiber_ret = []\<rparr>"

definition vm_map :: PKVM where
  "vm_map =
     \<lparr>heap = [ObjMap [(VAR_UNDEF, VAR_BOOL False), (VAR_NUM 1, VAR_NUM 10)],
              ObjString ''k'', ObjList []],
      fiber_error = None, fiber_ret = []\<rparr>"

definition vm_ranges :: PKVM where
  "vm_ranges =
     \<lparr>heap = [ObjRange 5 1, ObjRange 5 5, ObjRange 0 (1 / 2), ObjRange (1 / 2) (7 / 2)],
      fiber_error = None, fiber_ret = []\<rparr>"

section \<open>Argument extraction and builtins\<close>

text \<open>
  C10. \<^verbatim>\<open>pkGetArgBool\<close> at a valid argument position (\<open>1 \<le> arg \<le> ARGC\<close>), whatever value
  stands there: it returns true, hands back the truthiness of the argument, and leaves
  the whole VM state, the error channel included, as it was.
\<close>

theorem pkGetArgBool_total:
  assumes "0 < arg" and "arg \<le> ARGC vm"
  shows "pkGetArgBool vm arg = Returns (True, toBool (fiber_ret vm ! nat arg), vm)"
  using assms by (simp add: pkGetArgBool_def ARG_def ARGC_def)

theorem pkGetArgBool_total_witness:
  "(0::int) < 1 \<and> 1 \<le> ARGC vm_bool_arg \<and>
   pkGetArgBool vm_bool_arg 1 = Returns (True, True, vm_bool_arg)"
proof -
  have a: "(0::int) < 1" by simp
  have b: "1 \<le> ARGC vm_bool_arg" by (simp add: ARGC_def vm_bool_arg_def)
  have "pkGetArgBool vm_bool_arg 1 =
          Returns (True, toBool (fiber_ret vm_bool_arg ! nat 1), vm_bool_arg)"
    by (rule pkGetArgBool_total [OF a b])
  then show ?thesis using a b by (simp add: vm_bool_arg_def)
qed

text \<open>
  C6. \<^verbatim>\<open>hash(x)\<close> for every argument \<open>x\<close> (an object reference being one into the heap):
  \<^verbatim>\<open>coreHash\<close> returns, writes Null into the return slot when \<open>x\<close> is a List, Map, Range,
  Function, Script, Fiber or UserObj and the Number of the hash value otherwise (Null,
  Bool, Number, String), and changes nothing else: the error channel stays as it was.
\<close>

theorem coreHash_total:
  assumes arg: "ARG vm 1 = Some x"
    and valid: "\<forall>p. x = VAR_OBJ p \<longrightarrow> p < length (heap vm)"
  shows "coreHash hv vm =
           Returns (vm\<lparr>fiber_ret := (fiber_ret vm)
             [0 := (if \<exists>p. x = VAR_OBJ p \<and> obj_type (heap vm ! p) \<in>
                         {OBJ_LIST, OBJ_MAP, OBJ_RANGE, OBJ_FUNC, OBJ_SCRIPT, OBJ_FIBER, OBJ_USER}
                    then VAR_NULL else VAR_NUM (real (hv (heap vm) x)))]\<rparr>)"
proof (cases x)
  case (VAR_OBJ p)
  with valid have p: "p < length (heap vm)" by simp
  show ?thesis
    using arg VAR_OBJ p
    by (cases "heap vm ! p") (simp_all add: coreHash_def deref_def RET_def)
qed (use arg in \<open>simp_all add: coreHash_def RET_def\<close>)

theorem coreHash_total_witness:
  "ARG vm_hash_list 1 = Some (VAR_OBJ 0) \<and> 0 < length (heap vm_hash_list) \<and>
   coreHash (\<lambda>h v. 7) vm_hash_list =
     Returns (vm_hash_list\<lparr>fiber_ret := [VAR_NULL, VAR_OBJ 0]\<rparr>)"
proof -
  have a: "ARG vm_hash_list 1 = Some (VAR_OBJ 0)" by (simp add: ARG_def vm_hash_list_def)
  have b: "\<forall>p. VAR_OBJ 0 = VAR_OBJ p \<longrightarrow> p < length (heap vm_hash_list)"
    by (simp add: vm_hash_list_def)
  show ?thesis
    using coreHash_total [OF a b, of "\<lambda>h v. 7"] a by (simp add: vm_hash_list_def)
qed

text \<open>
  C7. \<^verbatim>\<open>assert(false, 42)\<close>: two arguments, a falsy condition and a message that is not
  an object. \<^verbatim>\<open>coreAssert\<close> reads \<^verbatim>\<open>AS_OBJ(ARG2)->type\<close> with no \<^verbatim>\<open>IS_OBJ\<close> test (which
  \<^verbatim>\<open>corePrint\<close> and \<^verbatim>\<open>stdLangWrite\<close> make before the same read), so the call has no defined
  behaviour instead of setting "Assertion failed: '42'.".
\<close>

theorem coreAssert_non_object_message: "coreAssert vm_assert_num = UB"
  by (simp add: coreAssert_def vm_assert_num_def ARGC_def ARG_def)

text \<open>
  The other cases of \<^verbatim>\<open>assert\<close> are as the spec has them: an argument count other than
  1 or 2 sets "Invalid argument count."; a truthy condition leaves the state untouched;
  a falsy one sets "Assertion failed." without a message and "Assertion failed: '@'."
  with a String message. A falsy condition with any message that is not an object is
  undefined.
\<close>

lemma coreAssert_argument_count:
  assumes "ARGC vm \<noteq> 1" and "ARGC vm \<noteq> 2"
  shows "coreAssert vm = Returns (set_error vm InvalidArgumentCount)"
  using assms by (simp add: coreAssert_def)

lemma coreAssert_truthy:
  assumes "ARGC vm = 1 \<or> ARGC vm = 2" and "ARG vm 1 = Some c" and "toBool c"
  shows "coreAssert vm = Returns vm"
  using assms by (auto simp: coreAssert_def)

lemma coreAssert_falsy_no_message:
  assumes "ARGC vm = 1" and "ARG vm 1 = Some c" and "\<not> toBool c"
  shows "coreAssert vm = Returns (set_error vm AssertionFailed)"
  using assms by (simp add: coreAssert_def)

lemma coreAssert_falsy_string_message:
  assumes "ARGC vm = 2" and "ARG vm 1 = Some c" and "\<not> toBool c"
    and "ARG vm 2 = Some (VAR_OBJ p)" and "deref vm p = Some (ObjString s)"
  shows "coreAssert vm = Returns (set_error vm (AssertionFailedMsg (Content s)))"
  using assms by (simp add: coreAssert_def)

lemma coreAssert_falsy_non_object_message:
  assumes "ARGC vm = 2" and "ARG vm 1 = Some c" and "\<not> toBool c"
    and "ARG vm 2 = Some m" and "\<forall>p. m \<noteq> VAR_OBJ p"
  shows "coreAssert vm = UB"
  using assms by (cases m) (simp_all add: coreAssert_def)

section \<open>Operators\<close>

text \<open>
  What the operators do when the left operand is not numeric, and the comparison
  operators on numeric operands.
\<close>

lemma comparison_numeric:
  assumes "isNumeric v1 = Some d1" and "isNumeric v2 = Some d2"
  shows "varGreater vm v1 v2 = Returns (d1 > d2, vm) \<and> varLesser vm v1 v2 = Returns (d1 < d2, vm)"
  using assms by (simp add: varGreater_def varLesser_def)

lemma unsupported_sub_mul_div:
  assumes "isNumeric v1 = None"
  shows "varSubtract vm v1 v2 = UNSUPPORT_OPERAND_TYPES ''-'' vm v1 v2"
    and "varMultiply vm v1 v2 = UNSUPPORT_OPERAND_TYPES ''*'' vm v1 v2"
    and "varDivide vm v1 v2 = UNSUPPORT_OPERAND_TYPES ''/'' vm v1 v2"
  using assms by (simp_all add: varSubtract_def varMultiply_def varDivide_def)

lemma varModulo_non_numeric:
  assumes "isNumeric v1 = None" and "valid_ref vm v1"
  shows "varModulo vm v1 v2 =
           (if obj_kind vm v1 = Some OBJ_STRING then Abort
            else UNSUPPORT_OPERAND_TYPES ''%'' vm v1 v2)"
proof (cases v1)
  case (VAR_OBJ p)
  with assms have "p < length (heap vm)" by (simp add: valid_ref_def)
  then show ?thesis using VAR_OBJ
    by (cases "heap vm ! p") (simp_all add: varModulo_def obj_kind_def deref_def)
qed (use assms in \<open>simp_all add: varModulo_def obj_kind_def\<close>)

lemma varAdd_non_numeric:
  assumes "isNumeric v1 = None" and "valid_ref vm v1" and "valid_ref vm v2"
    and "\<not> (obj_kind vm v1 = Some OBJ_STRING \<and> obj_kind vm v2 = Some OBJ_STRING)"
  shows "varAdd vm v1 v2 =
           (if obj_kind vm v1 = Some OBJ_LIST \<and> obj_kind vm v2 \<noteq> None then Abort
            else UNSUPPORT_OPERAND_TYPES ''+'' vm v1 v2)"
proof (cases v1)
  case v1: (VAR_OBJ p1)
  with assms have p1: "p1 < length (heap vm)" by (simp add: valid_ref_def)
  show ?thesis
  proof (cases v2)
    case v2: (VAR_OBJ p2)
    with assms have p2: "p2 < length (heap vm)" by (simp add: valid_ref_def)
    show ?thesis using v1 v2 p1 p2 assms(4)
      by (cases "heap vm ! p1"; cases "heap vm ! p2")
         (simp_all add: varAdd_def obj_kind_def deref_def)
  qed (use v1 in \<open>simp_all add: varAdd_def obj_kind_def\<close>)
qed (use assms in \<open>simp_all add: varAdd_def obj_kind_def\<close>)

text \<open>
  C2 as stated fails: \<^verbatim>\<open>varAdd\<close> of two Lists reaches the \<^verbatim>\<open>TODO\<close> of \<^verbatim>\<open>case OBJ_LIST\<close>; no
  error is set.
\<close>

theorem arithmetic_counterexample:
  "\<not> sets_type_mismatch (varAdd vm_two_lists (VAR_OBJ 0) (VAR_OBJ 1))"
  by (simp add: sets_type_mismatch_def varAdd_def deref_def vm_two_lists_def)

text \<open>
  C2, amended. For a left operand that is not numeric (and operands that are valid
  references): \<^verbatim>\<open>varSubtract\<close>, \<^verbatim>\<open>varMultiply\<close> and \<^verbatim>\<open>varDivide\<close> set the
  unsupported-operand-types error, return Null and change nothing else of the state;
  \<^verbatim>\<open>varModulo\<close> does the same unless the left operand is a String, where it reaches its
  \<^verbatim>\<open>TODO\<close>; \<^verbatim>\<open>varAdd\<close> does the same for every pair that is not String and String, unless
  the left operand is a List and the right one an object, where it reaches its \<^verbatim>\<open>TODO\<close>.
\<close>

theorem arithmetic_non_numeric_left:
  assumes "isNumeric v1 = None" and "valid_ref vm v1" and "valid_ref vm v2"
  shows
    "varSubtract vm v1 v2 = Returns (VAR_NULL, set_error vm (UnsupportedOperandTypes ''-'' v1 v2)) \<and>
     varMultiply vm v1 v2 = Returns (VAR_NULL, set_error vm (UnsupportedOperandTypes ''*'' v1 v2)) \<and>
     varDivide vm v1 v2 = Returns (VAR_NULL, set_error vm (UnsupportedOperandTypes ''/'' v1 v2)) \<and>
     varModulo vm v1 v2 =
       (if obj_kind vm v1 = Some OBJ_STRING then Abort
        else Returns (VAR_NULL, set_error vm (UnsupportedOperandTypes ''%'' v1 v2))) \<and>
     (\<not> (obj_kind vm v1 = Some OBJ_STRING \<and> obj_kind vm v2 = Some OBJ_STRING) \<longrightarrow>
      varAdd vm v1 v2 =
        (if obj_kind vm v1 = Some OBJ_LIST \<and> obj_kind vm v2 \<noteq> None then Abort
         else Returns (VAR_NULL, set_error vm (UnsupportedOperandTypes ''+'' v1 v2))))"
  using unsupported_sub_mul_div [OF assms(1)] varModulo_non_numeric [OF assms(1,2)]
    varAdd_non_numeric [OF assms]
  by (simp add: UNSUPPORT_OPERAND_TYPES_def)

theorem arithmetic_non_numeric_left_witness:
  "isNumeric (VAR_OBJ 0) = None \<and> valid_ref vm_two_lists (VAR_OBJ 0) \<and>
   valid_ref vm_two_lists (VAR_BOOL True) \<and>
   varSubtract vm_two_lists (VAR_OBJ 0) (VAR_BOOL True) =
     Returns (VAR_NULL, vm_two_lists\<lparr>fiber_error :=
       Some (UnsupportedOperandTypes ''-'' (VAR_OBJ 0) (VAR_BOOL True))\<rparr>) \<and>
   varAdd vm_two_lists (VAR_OBJ 0) (VAR_BOOL True) =
     Returns (VAR_NULL, vm_two_lists\<lparr>fiber_error :=
       Some (UnsupportedOperandTypes ''+'' (VAR_OBJ 0) (VAR_BOOL True))\<rparr>)"
proof -
  have a: "isNumeric (VAR_OBJ 0) = None" by simp
  have b: "valid_ref vm_two_lists (VAR_OBJ 0)" by (simp add: valid_ref_def vm_two_lists_def)
  have c: "valid_ref vm_two_lists (VAR_BOOL True)" by (simp add: valid_ref_def)
  have d: "obj_kind vm_two_lists (VAR_BOOL True) = None" by (simp add: obj_kind_def)
  show ?thesis
    using arithmetic_non_numeric_left [OF a b c] a b c d by (simp add: set_error_def)
qed

text \<open>
  C8 as stated fails: with a non-numeric operand \<^verbatim>\<open>varGreater\<close> and \<^verbatim>\<open>varLesser\<close> reach
  their \<^verbatim>\<open>TODO\<close> and set no error.
\<close>

theorem comparison_non_numeric_counterexample:
  "\<not> sets_type_mismatch (varGreater vm_bool_arg VAR_NULL (VAR_NUM 1)) \<and>
   \<not> sets_type_mismatch (varLesser vm_bool_arg VAR_NULL (VAR_NUM 1))"
  by (simp add: sets_type_mismatch_def varGreater_def varLesser_def)

text \<open>
  C8, amended. For every pair of operands of which at least one is not numeric,
  \<^verbatim>\<open>varGreater\<close> and \<^verbatim>\<open>varLesser\<close> uniformly reach the unimplemented placeholder: the
  call is aborted, nothing is returned and no error is set.
\<close>

theorem comparison_non_numeric:
  assumes "isNumeric v1 = None \<or> isNumeric v2 = None"
  shows "varGreater vm v1 v2 = Abort \<and> varLesser vm v1 v2 = Abort"
  using assms by (auto simp: varGreater_def varLesser_def split: option.splits)

theorem comparison_non_numeric_witness:
  "(isNumeric (VAR_NUM 1) = None \<or> isNumeric (VAR_OBJ 0) = None) \<and>
   varGreater vm_two_lists (VAR_NUM 1) (VAR_OBJ 0) = Abort \<and>
   varLesser vm_two_lists (VAR_NUM 1) (VAR_OBJ 0) = Abort"
proof -
  have a: "isNumeric (VAR_NUM 1) = None \<or> isNumeric (VAR_OBJ 0) = None" by simp
  show ?thesis using comparison_non_numeric [OF a, of vm_two_lists] a by simp
qed

section \<open>Subscript protocol on Lists\<close>

text \<open>
  Container sizes. The code converts counts and lengths to \<^verbatim>\<open>int\<close>
  (\<^verbatim>\<open>(int)elems->count\<close>) and iterator positions to \<^verbatim>\<open>int32_t\<close>: the theorems are about
  containers of fewer than \<open>2 ^ 31\<close> elements or slots.
\<close>

lemma trunc_of_int: "trunc (of_int i) = of_int i"
  by (simp add: trunc_def)

lemma cast_int32_of_int:
  "cast_int32 (of_int i) = (if - (2 ^ 31) \<le> i \<and> i < 2 ^ 31 then Some i else None)"
  by (simp add: cast_int32_def)

lemma int32_of_double_of_int:
  "int32_of_double (of_int i) = (if - (2 ^ 31) \<le> i \<and> i < 2 ^ 31 then i else - (2 ^ 31))"
  by (simp add: int32_of_double_def cast_int32_of_int)

lemma int32_of_uint32_small: "n < 2 ^ 31 \<Longrightarrow> int32_of_uint32 n = int n"
  by (simp add: int32_of_uint32_def)

lemma validateIngeger_of_int:
  assumes "isNumeric key = Some (of_int i)"
  shows "validateIngeger vm key name =
           Returns (Some (if - (2 ^ 31) \<le> i \<and> i < 2 ^ 31 then i else - (2 ^ 31)), vm)"
  using assms by (simp add: validateIngeger_def trunc_of_int int32_of_double_of_int)

lemma list_set_valid:
  assumes "deref vm p = Some (ObjList elems)" and "length elems < 2 ^ 31"
    and "isNumeric key = Some (of_int i)" and "0 \<le> i" and "i < int (length elems)"
  shows "varsetSubscript vm (VAR_OBJ p) key v =
           Returns (vm\<lparr>heap := (heap vm)[p := ObjList (elems[nat i := v])]\<rparr>)"
proof -
  have "i < 2 ^ 31" using assms(2,5) by simp
  with assms(4) have "validateIngeger vm key ''List index'' = Returns (Some i, vm)"
    by (simp add: validateIngeger_of_int [OF assms(3)])
  then show ?thesis
    using assms by (simp add: varsetSubscript_def validateIndex_def int32_of_uint32_small)
qed

lemma list_get_valid:
  assumes "deref vm p = Some (ObjList elems)" and "length elems < 2 ^ 31"
    and "isNumeric key = Some (of_int i)" and "0 \<le> i" and "i < int (length elems)"
  shows "varGetSubscript vm (VAR_OBJ p) key = Returns (elems ! nat i, vm)"
proof -
  have "i < 2 ^ 31" using assms(2,5) by simp
  with assms(4) have "validateIngeger vm key ''List index'' = Returns (Some i, vm)"
    by (simp add: validateIngeger_of_int [OF assms(3)])
  then show ?thesis
    using assms by (simp add: varGetSubscript_def validateIndex_def int32_of_uint32_small)
qed

lemma list_set_invalid:
  assumes "deref vm p = Some (ObjList elems)" and "length elems < 2 ^ 31"
    and "isNumeric key = Some (of_int i)"
    and "i < 0 \<or> int (length elems) \<le> i"
  shows "varsetSubscript vm (VAR_OBJ p) key v = Returns (set_error vm (IndexOutOfRange ''List''))"
proof -
  define j where "j = (if - (2 ^ 31) \<le> i \<and> i < 2 ^ 31 then i else - (2 ^ 31))"
  have v: "validateIngeger vm key ''List index'' = Returns (Some j, vm)"
    unfolding j_def by (rule validateIngeger_of_int [OF assms(3)])
  have "j < 0 \<or> int (length elems) \<le> j"
    using assms(4) by (auto simp: j_def)
  with v show ?thesis
    using assms(1,2) by (auto simp: varsetSubscript_def validateIndex_def int32_of_uint32_small)
qed

text \<open>
  An index no \<^verbatim>\<open>int32_t\<close> holds is out of range like any other: the converted index is
  negative.
\<close>

lemma list_set_huge_index:
  "varsetSubscript vm_one_list (VAR_OBJ 0) (VAR_NUM 2147483648) VAR_NULL =
     Returns (vm_one_list\<lparr>fiber_error := Some (IndexOutOfRange ''List'')\<rparr>)"
proof -
  have a: "deref vm_one_list 0 = Some (ObjList [VAR_NULL, VAR_BOOL True, VAR_NUM 3])"
    by (simp add: deref_def vm_one_list_def)
  have b: "length [VAR_NULL, VAR_BOOL True, VAR_NUM 3] < 2 ^ 31" by simp
  have c: "isNumeric (VAR_NUM 2147483648) = Some (of_int 2147483648)" by simp
  show ?thesis
    using list_set_invalid [OF a b c, of VAR_NULL] by (simp add: set_error_def)
qed

text \<open>
  C3. For every List (of fewer than \<open>2 ^ 31\<close> elements), every key that is the integer
  \<open>i\<close> (a Number, or a Bool read as 0 or 1) and every value \<open>v\<close>: if \<open>i\<close> is in
  \<open>[0, count)\<close>, \<^verbatim>\<open>varsetSubscript\<close> returns without touching the error channel and
  \<^verbatim>\<open>varGetSubscript\<close> of the same key then returns \<open>v\<close>; if \<open>i\<close> is any integer outside
  \<open>[0, count)\<close>, \<^verbatim>\<open>varsetSubscript\<close> sets "List index out of range." and changes nothing
  else: the elements stay.
\<close>

theorem list_set_then_get:
  assumes "deref vm p = Some (ObjList elems)" and "length elems < 2 ^ 31"
    and "isNumeric key = Some (of_int i)"
  shows "(0 \<le> i \<and> i < int (length elems) \<longrightarrow>
            (\<exists>vm'. varsetSubscript vm (VAR_OBJ p) key v = Returns vm' \<and>
                   varGetSubscript vm' (VAR_OBJ p) key = Returns (v, vm') \<and>
                   fiber_error vm' = fiber_error vm)) \<and>
         (i < 0 \<or> int (length elems) \<le> i \<longrightarrow>
            varsetSubscript vm (VAR_OBJ p) key v =
              Returns (vm\<lparr>fiber_error := Some (IndexOutOfRange ''List'')\<rparr>))"
proof (intro conjI impI)
  assume i: "0 \<le> i \<and> i < int (length elems)"
  define vm' where "vm' = vm\<lparr>heap := (heap vm)[p := ObjList (elems[nat i := v])]\<rparr>"
  have p: "p < length (heap vm)"
    using assms(1) by (simp add: deref_def split: if_splits)
  have set: "varsetSubscript vm (VAR_OBJ p) key v = Returns vm'"
    unfolding vm'_def using assms i by (intro list_set_valid) auto
  have d': "deref vm' p = Some (ObjList (elems[nat i := v]))"
    using p by (simp add: vm'_def deref_def)
  have "varGetSubscript vm' (VAR_OBJ p) key = Returns ((elems[nat i := v]) ! nat i, vm')"
    using d' assms i by (intro list_get_valid) auto
  moreover have "nat i < length elems" using i by linarith
  then have "(elems[nat i := v]) ! nat i = v" by simp
  ultimately show "\<exists>vm'. varsetSubscript vm (VAR_OBJ p) key v = Returns vm' \<and>
                   varGetSubscript vm' (VAR_OBJ p) key = Returns (v, vm') \<and>
                   fiber_error vm' = fiber_error vm"
    using set by (auto simp: vm'_def)
next
  assume "i < 0 \<or> int (length elems) \<le> i"
  then show "varsetSubscript vm (VAR_OBJ p) key v =
              Returns (vm\<lparr>fiber_error := Some (IndexOutOfRange ''List'')\<rparr>)"
    using list_set_invalid [OF assms, of v] by (simp add: set_error_def)
qed

theorem list_set_then_get_witness:
  "deref vm_one_list 0 = Some (ObjList [VAR_NULL, VAR_BOOL True, VAR_NUM 3]) \<and>
   isNumeric (VAR_NUM 2) = Some (of_int 2) \<and>
   (\<exists>vm'. varsetSubscript vm_one_list (VAR_OBJ 0) (VAR_NUM 2) (VAR_NUM 9) = Returns vm' \<and>
          varGetSubscript vm' (VAR_OBJ 0) (VAR_NUM 2) = Returns (VAR_NUM 9, vm') \<and>
          fiber_error vm' = fiber_error vm_one_list) \<and>
   isNumeric (VAR_NUM 3) = Some (of_int 3) \<and>
   varsetSubscript vm_one_list (VAR_OBJ 0) (VAR_NUM 3) (VAR_NUM 9) =
     Returns (vm_one_list\<lparr>fiber_error := Some (IndexOutOfRange ''List'')\<rparr>) \<and>
   isNumeric (VAR_NUM 2147483648) = Some (of_int 2147483648) \<and>
   varsetSubscript vm_one_list (VAR_OBJ 0) (VAR_NUM 2147483648) (VAR_NUM 9) =
     Returns (vm_one_list\<lparr>fiber_error := Some (IndexOutOfRange ''List'')\<rparr>)"
proof -
  have a: "deref vm_one_list 0 = Some (ObjList [VAR_NULL, VAR_BOOL True, VAR_NUM 3])"
    by (simp add: deref_def vm_one_list_def)
  have b: "length [VAR_NULL, VAR_BOOL True, VAR_NUM 3] < 2 ^ 31" by simp
  have c: "isNumeric (VAR_NUM 2) = Some (of_int 2)" by simp
  have d: "isNumeric (VAR_NUM 3) = Some (of_int 3)" by simp
  have e: "isNumeric (VAR_NUM 2147483648) = Some (of_int 2147483648)" by simp
  show ?thesis
    using list_set_then_get [OF a b c, of "VAR_NUM 9"]
      list_set_then_get [OF a b d, of "VAR_NUM 9"]
      list_set_then_get [OF a b e, of "VAR_NUM 9"] a c d e
    by simp
qed

section \<open>Subscript protocol on Maps\<close>

text \<open>
  The slot a lookup finds after an upsert: the slot that held the key, the free slot
  the key was put in, or the slot the table grew by.
\<close>

lemma mapFindSlot_less: "mapFindSlot h es k = Some i \<Longrightarrow> i < length es"
  by (induction es arbitrary: i) (auto split: if_splits)

lemma mapFreeSlot_less: "mapFreeSlot es = Some i \<Longrightarrow> i < length es"
  by (induction es arbitrary: i) (auto split: if_splits)

lemma mapFindSlot_replace_value:
  "mapFindSlot h es k = Some i \<Longrightarrow> mapFindSlot h (es[i := (fst (es ! i), v)]) k = Some i"
proof (induction es arbitrary: i)
  case Nil
  then show ?case by simp
next
  case (Cons e es)
  show ?case
  proof (cases "fst e \<noteq> VAR_UNDEF \<and> isValuesEqual h (fst e) k")
    case True
    with Cons.prems show ?thesis by simp
  next
    case False
    with Cons.prems obtain j where j: "mapFindSlot h es k = Some j" "i = Suc j" by auto
    from Cons.IH [OF j(1)] False j(2) show ?thesis by simp
  qed
qed

lemma isValuesEqual_refl: "isValuesEqual h k k"
  by (simp add: isValuesEqual_def)

lemma mapFindSlot_fill_free:
  "mapFindSlot h es k = None \<Longrightarrow> mapFreeSlot es = Some i \<Longrightarrow> k \<noteq> VAR_UNDEF \<Longrightarrow>
   mapFindSlot h (es[i := (k, v)]) k = Some i"
proof (induction es arbitrary: i)
  case Nil
  then show ?case by simp
next
  case (Cons e es)
  show ?case
  proof (cases "fst e = VAR_UNDEF")
    case True
    with Cons.prems show ?thesis by (simp add: isValuesEqual_refl)
  next
    case False
    with Cons.prems obtain j where j: "mapFreeSlot es = Some j" "i = Suc j" by auto
    from Cons.prems False have none: "mapFindSlot h es k = None" "\<not> isValuesEqual h (fst e) k"
      by (auto split: if_splits)
    from Cons.IH [OF none(1) j(1) Cons.prems(3)] none(2) j(2) show ?thesis by simp
  qed
qed

lemma mapFindSlot_append_new:
  "mapFindSlot h es k = None \<Longrightarrow> k \<noteq> VAR_UNDEF \<Longrightarrow>
   mapFindSlot h (es @ [(k, v)]) k = Some (length es)"
  by (induction es) (auto simp: isValuesEqual_refl split: if_splits)

lemma mapGet_mapSet:
  assumes "k \<noteq> VAR_UNDEF"
  shows "mapGet h (mapSet h es k v) k = v"
proof (cases "mapFindSlot h es k")
  case (Some i)
  then have "i < length es" by (rule mapFindSlot_less)
  with Some mapFindSlot_replace_value [OF Some, of v] show ?thesis
    by (simp add: mapGet_def mapSet_def)
next
  case None
  show ?thesis
  proof (cases "mapFreeSlot es")
    case (Some i)
    then have "i < length es" by (rule mapFreeSlot_less)
    with None Some mapFindSlot_fill_free [OF None Some assms, of v] show ?thesis
      by (simp add: mapGet_def mapSet_def)
  next
    case free: None
    with None mapFindSlot_append_new [OF None assms, of v] show ?thesis
      by (simp add: mapGet_def mapSet_def)
  qed
qed

text \<open>
  Storing the new slot array in the heap changes no String, so key comparison is the
  same before and after.
\<close>

lemma isValuesEqual_map_update:
  assumes "p < length h" and "h ! p = ObjMap es"
  shows "isValuesEqual (h[p := ObjMap es']) a b = isValuesEqual h a b"
proof (cases a; cases b)
  fix x y
  assume ab: "a = VAR_OBJ x" "b = VAR_OBJ y"
  show ?thesis
  proof (cases "x = p \<or> y = p")
    case True
    then show ?thesis using ab assms
      by (auto simp: isValuesEqual_def nth_list_update split: Object.splits)
  next
    case False
    then show ?thesis using ab assms by (simp add: isValuesEqual_def)
  qed
qed (simp_all add: isValuesEqual_def)

lemma mapFindSlot_map_update:
  assumes "p < length h" and "h ! p = ObjMap es"
  shows "mapFindSlot (h[p := ObjMap es']) xs k = mapFindSlot h xs k"
  by (induction xs) (simp_all add: isValuesEqual_map_update [OF assms])

lemma mapGet_map_update:
  assumes "p < length h" and "h ! p = ObjMap es"
  shows "mapGet (h[p := ObjMap es']) xs k = mapGet h xs k"
  by (simp add: mapGet_def mapFindSlot_map_update [OF assms])

lemma map_set_non_hashable:
  assumes "deref vm p = Some (ObjMap es)" and "non_hashable_key vm key"
  shows "varsetSubscript vm (VAR_OBJ p) key v = Returns (set_error vm (NotHashable key))"
  using assms
  by (auto simp: varsetSubscript_def non_hashable_key_def split: Var.splits option.splits)

lemma map_set_hashable:
  assumes "deref vm p = Some (ObjMap es)" and "hashable_key vm key"
  shows "varsetSubscript vm (VAR_OBJ p) key v =
           Returns (vm\<lparr>heap := (heap vm)[p := ObjMap (mapSet (heap vm) es key v)]\<rparr>)"
  using assms
  by (auto simp: varsetSubscript_def hashable_key_def split: Var.splits option.splits)

text \<open>
  C4. For every Map: \<^verbatim>\<open>varsetSubscript\<close> with a key that refers to a non-hashable object
  sets the "type is not hashable" error and changes nothing else (the heap, and so the
  map, stays as it was); with a hashable key \<open>k\<close> and a value \<open>v\<close> it stores the
  upserted slot array without touching the error channel, and \<^verbatim>\<open>varGetSubscript\<close> of
  \<open>k\<close> on the new state returns \<open>v\<close>.
\<close>

theorem map_set_subscript:
  assumes "deref vm p = Some (ObjMap es)"
  shows "(non_hashable_key vm key \<longrightarrow>
            varsetSubscript vm (VAR_OBJ p) key v =
              Returns (vm\<lparr>fiber_error := Some (NotHashable key)\<rparr>)) \<and>
         (hashable_key vm key \<and> v \<noteq> VAR_UNDEF \<longrightarrow>
            (\<exists>vm'. varsetSubscript vm (VAR_OBJ p) key v = Returns vm' \<and>
                   varGetSubscript vm' (VAR_OBJ p) key = Returns (v, vm') \<and>
                   fiber_error vm' = fiber_error vm))"
proof (intro conjI impI)
  assume "non_hashable_key vm key"
  from map_set_non_hashable [OF assms this, of v]
  show "varsetSubscript vm (VAR_OBJ p) key v =
          Returns (vm\<lparr>fiber_error := Some (NotHashable key)\<rparr>)"
    by (simp add: set_error_def)
next
  assume hv: "hashable_key vm key \<and> v \<noteq> VAR_UNDEF"
  define es' where "es' = mapSet (heap vm) es key v"
  define vm' where "vm' = vm\<lparr>heap := (heap vm)[p := ObjMap es']\<rparr>"
  have p: "p < length (heap vm)" "heap vm ! p = ObjMap es"
    using assms by (simp_all add: deref_def split: if_splits)
  have k: "key \<noteq> VAR_UNDEF" using hv by (auto simp: hashable_key_def)
  have set: "varsetSubscript vm (VAR_OBJ p) key v = Returns vm'"
    using map_set_hashable [OF assms, of key v] hv by (simp add: vm'_def es'_def)
  have "mapGet (heap vm') es' key = mapGet (heap vm) es' key"
    using mapGet_map_update [OF p] by (simp add: vm'_def)
  also have "\<dots> = v" unfolding es'_def by (rule mapGet_mapSet [OF k])
  finally have get: "mapGet (heap vm') es' key = v" .
  have "deref vm' p = Some (ObjMap es')" using p by (simp add: vm'_def deref_def)
  with get hv have "varGetSubscript vm' (VAR_OBJ p) key = Returns (v, vm')"
    by (simp add: varGetSubscript_def)
  with set show "\<exists>vm'. varsetSubscript vm (VAR_OBJ p) key v = Returns vm' \<and>
                   varGetSubscript vm' (VAR_OBJ p) key = Returns (v, vm') \<and>
                   fiber_error vm' = fiber_error vm"
    by (auto simp: vm'_def)
qed

theorem map_set_subscript_witness:
  "deref vm_map 0 = Some (ObjMap [(VAR_UNDEF, VAR_BOOL False), (VAR_NUM 1, VAR_NUM 10)]) \<and>
   non_hashable_key vm_map (VAR_OBJ 2) \<and>
   varsetSubscript vm_map (VAR_OBJ 0) (VAR_OBJ 2) (VAR_NUM 5) =
     Returns (vm_map\<lparr>fiber_error := Some (NotHashable (VAR_OBJ 2))\<rparr>) \<and>
   hashable_key vm_map (VAR_OBJ 1) \<and>
   (\<exists>vm'. varsetSubscript vm_map (VAR_OBJ 0) (VAR_OBJ 1) (VAR_NUM 5) = Returns vm' \<and>
          varGetSubscript vm' (VAR_OBJ 0) (VAR_OBJ 1) = Returns (VAR_NUM 5, vm') \<and>
          fiber_error vm' = fiber_error vm_map)"
proof -
  have a: "deref vm_map 0 =
             Some (ObjMap [(VAR_UNDEF, VAR_BOOL False), (VAR_NUM 1, VAR_NUM 10)])"
    by (simp add: deref_def vm_map_def)
  have b: "non_hashable_key vm_map (VAR_OBJ 2)"
    by (simp add: non_hashable_key_def deref_def vm_map_def)
  have c: "hashable_key vm_map (VAR_OBJ 1)"
    by (simp add: hashable_key_def deref_def vm_map_def)
  show ?thesis
    using map_set_subscript [OF a, of "VAR_OBJ 2" "VAR_NUM 5"]
      map_set_subscript [OF a, of "VAR_OBJ 1" "VAR_NUM 5"] a b c
    by simp
qed

lemma map_example_layout:
  "varsetSubscript vm_map (VAR_OBJ 0) (VAR_OBJ 1) (VAR_NUM 5) =
     Returns (vm_map\<lparr>heap :=
       [ObjMap [(VAR_OBJ 1, VAR_NUM 5), (VAR_NUM 1, VAR_NUM 10)], ObjString ''k'', ObjList []]\<rparr>)"
  by (simp add: varsetSubscript_def deref_def vm_map_def mapSet_def isValuesEqual_def)

section \<open>Iteration protocol\<close>

text \<open>
  The iterator read back by \<^verbatim>\<open>_AS_INTEGER\<close>: Null is position 0, the Number \<open>n\<close> is
  position \<open>n\<close> as long as \<open>n\<close> fits \<^verbatim>\<open>int32_t\<close>.
\<close>

lemma iter_of_null: "iter_of VAR_NULL = Some 0"
  by (simp add: iter_of_def)

lemma iter_of_nat:
  assumes "n < 2 ^ 31"
  shows "iter_of (VAR_NUM (real n)) = Some n"
proof -
  have "trunc (real n) = real n" by (simp add: trunc_def)
  moreover have "cast_int32 (real n) = Some (int n)"
    using assms by (simp add: cast_int32_def)
  moreover have "uint32_of_int32 (int n) = n"
    using assms by (simp add: uint32_of_int32_def)
  ultimately show ?thesis by (simp add: iter_of_def)
qed

lemma iter_of_Suc:
  assumes "Suc n < 2 ^ 31"
  shows "iter_of (VAR_NUM (real n + 1)) = Some (Suc n)"
  using iter_of_nat [OF assms] by (simp add: add.commute)

text \<open>
  The slot search of the Map case: it returns the first occupied slot at or after its
  start, or the capacity when there is none.
\<close>

lemma mapNextSlot_ge: "n \<le> mapNextSlot es n"
proof (induction es n rule: mapNextSlot.induct)
  case (1 es iter)
  show ?case
  proof (cases "iter < length es \<and> fst (es ! iter) = VAR_UNDEF")
    case True
    then have "mapNextSlot es iter = mapNextSlot es (iter + 1)"
      by (subst mapNextSlot.simps) simp
    with "1.IH" True show ?thesis by simp
  next
    case False
    then have "mapNextSlot es iter = iter" by (subst mapNextSlot.simps) auto
    then show ?thesis by simp
  qed
qed

lemma mapNextSlot_occupied:
  "mapNextSlot es n < length es \<Longrightarrow> occupied es (mapNextSlot es n)"
proof (induction es n rule: mapNextSlot.induct)
  case (1 es iter)
  show ?case
  proof (cases "iter < length es \<and> fst (es ! iter) = VAR_UNDEF")
    case True
    then have "mapNextSlot es iter = mapNextSlot es (iter + 1)"
      by (subst mapNextSlot.simps) simp
    with "1.IH" "1.prems" True show ?thesis by simp
  next
    case False
    then have eq: "mapNextSlot es iter = iter" by (subst mapNextSlot.simps) auto
    with "1.prems" False show ?thesis by (simp add: occupied_def)
  qed
qed

lemma mapNextSlot_skips:
  "n \<le> i \<Longrightarrow> i < mapNextSlot es n \<Longrightarrow> i < length es \<Longrightarrow> \<not> occupied es i"
proof (induction es n rule: mapNextSlot.induct)
  case (1 es iter)
  show ?case
  proof (cases "iter < length es \<and> fst (es ! iter) = VAR_UNDEF")
    case True
    then have eq: "mapNextSlot es iter = mapNextSlot es (iter + 1)"
      by (subst mapNextSlot.simps) simp
    show ?thesis
    proof (cases "i = iter")
      case True
      with \<open>iter < length es \<and> fst (es ! iter) = VAR_UNDEF\<close> show ?thesis
        by (simp add: occupied_def)
    next
      case False
      with "1.prems" have "iter + 1 \<le> i" by simp
      with "1.IH" True "1.prems" eq show ?thesis by simp
    qed
  next
    case False
    then have "mapNextSlot es iter = iter" by (subst mapNextSlot.simps) auto
    with "1.prems" show ?thesis by simp
  qed
qed

lemma mapNextSlot_le: "n \<le> length es \<Longrightarrow> mapNextSlot es n \<le> length es"
proof (induction es n rule: mapNextSlot.induct)
  case (1 es iter)
  show ?case
  proof (cases "iter < length es \<and> fst (es ! iter) = VAR_UNDEF")
    case True
    then have "mapNextSlot es iter = mapNextSlot es (iter + 1)"
      by (subst mapNextSlot.simps) simp
    with "1.IH" True show ?thesis by simp
  next
    case False
    then have "mapNextSlot es iter = iter" by (subst mapNextSlot.simps) auto
    with "1.prems" show ?thesis by simp
  qed
qed

lemma mapNextSlot_end_iff:
  "length es \<le> mapNextSlot es n \<longleftrightarrow> (\<forall>i. n \<le> i \<and> i < length es \<longrightarrow> \<not> occupied es i)"
proof
  assume "length es \<le> mapNextSlot es n"
  then show "\<forall>i. n \<le> i \<and> i < length es \<longrightarrow> \<not> occupied es i"
    using mapNextSlot_skips [of n _ es] by auto
next
  assume none: "\<forall>i. n \<le> i \<and> i < length es \<longrightarrow> \<not> occupied es i"
  show "length es \<le> mapNextSlot es n"
  proof (rule ccontr)
    assume "\<not> length es \<le> mapNextSlot es n"
    then have lt: "mapNextSlot es n < length es" by simp
    from mapNextSlot_occupied [OF lt] none mapNextSlot_ge [of n es] lt show False by blast
  qed
qed

lemma varIterate_map:
  assumes "deref vm p = Some (ObjMap es)" and "iter_of s = Some n"
  shows "varIterate vm (VAR_OBJ p) s v =
           (if length es \<le> mapNextSlot es n then Returns (False, s, v, vm)
            else Returns (True, VAR_NUM (real (Suc (mapNextSlot es n))),
                          fst (es ! mapNextSlot es n), vm))"
  using assms by (simp add: varIterate_def Let_def add.commute)

lemma filter_upt_skip:
  assumes "k \<le> j" and "j \<le> n" and "\<forall>i. k \<le> i \<and> i < j \<longrightarrow> \<not> P i"
  shows "filter P [k..<n] = filter P [j..<n]"
proof -
  have "[k..<n] = [k..<j] @ [j..<n]"
    using assms(1,2) by (metis le_Suc_ex upt_add_eq_append)
  moreover have "filter P [k..<j] = []" using assms(3) by (auto simp: filter_empty_conv)
  ultimately show ?thesis by simp
qed

lemma filter_upt_none:
  assumes "\<forall>i. k \<le> i \<and> i < n \<longrightarrow> \<not> P i"
  shows "filter P [k..<n] = []"
  using assms by (auto simp: filter_empty_conv)

lemma iterate_map_from:
  assumes "deref vm p = Some (ObjMap es)" and "length es < 2 ^ 31"
  shows "iter_of s = Some k \<Longrightarrow> length (filter (occupied es) [k..<length es]) < fuel \<Longrightarrow>
         iterate_from fuel vm (VAR_OBJ p) s = Returns (map_steps es k, True)"
proof (induction "length es - k" arbitrary: k s fuel rule: less_induct)
  case less
  from less.prems(2) obtain f where fuel: "fuel = Suc f" by (cases fuel) auto
  let ?j = "mapNextSlot es k"
  show ?case
  proof (cases "length es \<le> ?j")
    case True
    then have "\<forall>i. k \<le> i \<and> i < length es \<longrightarrow> \<not> occupied es i"
      by (simp add: mapNextSlot_end_iff)
    then have "map_steps es k = []" by (simp add: map_steps_def filter_upt_none)
    with True show ?thesis
      by (simp add: fuel varIterate_map [OF assms(1) less.prems(1)])
  next
    case False
    then have j: "?j < length es" by simp
    have kj: "k \<le> ?j" by (rule mapNextSlot_ge)
    have occ: "occupied es ?j" using j by (rule mapNextSlot_occupied)
    have skip: "\<forall>i. k \<le> i \<and> i < ?j \<longrightarrow> \<not> occupied es i"
      using mapNextSlot_skips [of k _ es] j by auto
    have split: "filter (occupied es) [k..<length es] =
                   ?j # filter (occupied es) [Suc ?j..<length es]"
    proof -
      have "filter (occupied es) [k..<length es] = filter (occupied es) [?j..<length es]"
        using kj j skip by (intro filter_upt_skip) auto
      also have "[?j..<length es] = ?j # [Suc ?j..<length es]"
        using j by (simp add: upt_conv_Cons)
      finally show ?thesis using occ by simp
    qed
    have it': "iter_of (VAR_NUM (real (Suc ?j))) = Some (Suc ?j)"
      using j assms(2) by (intro iter_of_nat) simp
    have "length (filter (occupied es) [Suc ?j..<length es]) < f"
      using less.prems(2) split fuel by simp
    moreover have "length es - Suc ?j < length es - k" using j kj by simp
    ultimately have rest: "iterate_from f vm (VAR_OBJ p) (VAR_NUM (real (Suc ?j))) =
                    Returns (map_steps es (Suc ?j), True)"
      using less.hyps it' by blast
    have steps: "map_steps es k = (fst (es ! ?j), VAR_NUM (real (Suc ?j))) # map_steps es (Suc ?j)"
      by (simp add: map_steps_def split)
    show ?thesis
      using False rest steps
      by (simp add: fuel varIterate_map [OF assms(1) less.prems(1)])
  qed
qed

lemma length_filter_upt: "length (filter P [k..<n]) \<le> n - k"
  using length_filter_le [of P "[k..<n]"] by simp

lemma iterate_map_all:
  assumes "deref vm p = Some (ObjMap es)" and "length es < 2 ^ 31"
  shows "iterate_from (Suc (length es)) vm (VAR_OBJ p) VAR_NULL =
           Returns (map (\<lambda>i. (fst (es ! i), VAR_NUM (real (Suc i))))
                        (filter (\<lambda>i. fst (es ! i) \<noteq> VAR_UNDEF) [0..<length es]), True)"
proof -
  have "length (filter (occupied es) [0..<length es]) < Suc (length es)"
    using length_filter_upt [of "occupied es" 0 "length es"] by simp
  from iterate_map_from [OF assms iter_of_null this]
  have "iterate_from (Suc (length es)) vm (VAR_OBJ p) VAR_NULL = Returns (map_steps es 0, True)" .
  moreover have "occupied es = (\<lambda>i. fst (es ! i) \<noteq> VAR_UNDEF)"
    by (rule ext) (simp add: occupied_def)
  ultimately show ?thesis by (simp add: map_steps_def)
qed

lemma map_iterate_stops_iff:
  assumes "deref vm p = Some (ObjMap es)" and "iter_of s = Some k"
  shows "(\<exists>s' v' vm'. varIterate vm (VAR_OBJ p) s v = Returns (False, s', v', vm')) \<longleftrightarrow>
         (\<forall>i. k \<le> i \<and> i < length es \<longrightarrow> fst (es ! i) = VAR_UNDEF)"
  using mapNextSlot_end_iff [of es k]
  by (simp add: varIterate_map [OF assms] occupied_def)

text \<open>
  Strings, Lists and Ranges: a successful call moves the iterator from position \<open>k\<close> to
  the Number \<open>k + 1\<close> and leaves the sequence object as it was.
\<close>

lemma deref_newStringLength:
  assumes "deref vm p = Some ob" and "newStringLength vm s = (c, vm')"
  shows "deref vm' p = Some ob"
  using assms by (auto simp: deref_def newStringLength_def nth_append split: if_splits)

lemma varIterate_counting:
  assumes "deref vm p = Some ob" and "obj_type ob \<in> {OBJ_STRING, OBJ_LIST, OBJ_RANGE}"
    and "iter_of s = Some k"
  shows "(\<exists>v' vm'. varIterate vm (VAR_OBJ p) s v = Returns (True, VAR_NUM (real (Suc k)), v', vm') \<and>
                   deref vm' p = Some ob) \<or>
         varIterate vm (VAR_OBJ p) s v = Returns (False, s, v, vm)"
proof (cases ob)
  case (ObjString str)
  show ?thesis
  proof (cases "length str \<le> k")
    case True
    with assms ObjString show ?thesis by (simp add: varIterate_def)
  next
    case False
    obtain c vm' where n: "newStringLength vm [str ! k] = (c, vm')" by fastforce
    from deref_newStringLength [OF assms(1) n] have "deref vm' p = Some ob" .
    with False assms ObjString n show ?thesis by (simp add: varIterate_def add.commute)
  qed
next
  case (ObjList elems)
  with assms show ?thesis by (simp add: varIterate_def add.commute)
next
  case (ObjRange lo hi)
  with assms show ?thesis by (simp add: varIterate_def Let_def add.commute)
qed (use assms in \<open>simp_all\<close>)

lemma iterate_counting_from:
  assumes "obj_type ob \<in> {OBJ_STRING, OBJ_LIST, OBJ_RANGE}"
  shows "deref vm p = Some ob \<Longrightarrow> iter_of s = Some k \<Longrightarrow> k + n < 2 ^ 31 \<Longrightarrow>
         \<exists>steps stopped. iterate_from n vm (VAR_OBJ p) s = Returns (steps, stopped) \<and>
                         steps_count_from k steps"
proof (induction n arbitrary: vm s k)
  case 0
  then show ?case by (auto simp: steps_count_from_def)
next
  case (Suc n)
  from varIterate_counting [OF Suc.prems(1) assms Suc.prems(2), of VAR_NULL]
  show ?case
  proof
    assume "\<exists>v' vm'. varIterate vm (VAR_OBJ p) s VAR_NULL =
                Returns (True, VAR_NUM (real (Suc k)), v', vm') \<and> deref vm' p = Some ob"
    then obtain v' vm' where
      call: "varIterate vm (VAR_OBJ p) s VAR_NULL = Returns (True, VAR_NUM (real (Suc k)), v', vm')"
      and d': "deref vm' p = Some ob" by blast
    have it': "iter_of (VAR_NUM (real (Suc k))) = Some (Suc k)"
      using Suc.prems(3) by (intro iter_of_nat) simp
    have "Suc k + n < 2 ^ 31" using Suc.prems(3) by simp
    from Suc.IH [OF d' it' this] obtain steps stopped where
      rest: "iterate_from n vm' (VAR_OBJ p) (VAR_NUM (real (Suc k))) = Returns (steps, stopped)"
      and cnt: "steps_count_from (Suc k) steps" by blast
    have "steps_count_from k ((v', VAR_NUM (real (Suc k))) # steps)"
      using cnt by (simp add: steps_count_from_def upt_conv_Cons del: upt_Suc)
    with call rest show ?thesis by (simp del: of_nat_Suc)
  next
    assume "varIterate vm (VAR_OBJ p) s VAR_NULL = Returns (False, s, VAR_NULL, vm)"
    then show ?thesis by (auto simp: steps_count_from_def)
  qed
qed

text \<open>
  C9. For every Map and every iterator state \<open>s\<close> (Null, or a Number \<open>n\<close> that
  \<^verbatim>\<open>_AS_INTEGER\<close> can read): either there is an occupied slot \<open>j\<close> at or after the
  resume index, and the call succeeds, yields the key of the first such slot and
  returns the state \<open>j + 1\<close>, which is greater than \<open>s\<close> and at most the capacity; or
  there is none, and the call returns false with the state unchanged. Hence the chain of
  calls from Null has stopped after at most capacity + 1 calls.
\<close>

theorem map_iterate_progress:
  assumes "deref vm p = Some (ObjMap es)"
    and "s = VAR_NULL \<and> n = 0 \<or> s = VAR_NUM (real n) \<and> n < 2 ^ 31"
  shows "((\<exists>j. n \<le> j \<and> j < length es \<and> fst (es ! j) \<noteq> VAR_UNDEF \<and>
              varIterate vm (VAR_OBJ p) s v =
                Returns (True, VAR_NUM (real (Suc j)), fst (es ! j), vm)) \<or>
          ((\<forall>i. n \<le> i \<and> i < length es \<longrightarrow> fst (es ! i) = VAR_UNDEF) \<and>
              varIterate vm (VAR_OBJ p) s v = Returns (False, s, v, vm))) \<and>
         (length es < 2 ^ 31 \<longrightarrow>
            (\<exists>steps. iterate_from (Suc (length es)) vm (VAR_OBJ p) VAR_NULL =
                       Returns (steps, True)))"
proof (intro conjI impI)
  have it: "iter_of s = Some n"
    using assms(2) by (auto simp: iter_of_null iter_of_nat)
  let ?j = "mapNextSlot es n"
  show "(\<exists>j. n \<le> j \<and> j < length es \<and> fst (es ! j) \<noteq> VAR_UNDEF \<and>
              varIterate vm (VAR_OBJ p) s v =
                Returns (True, VAR_NUM (real (Suc j)), fst (es ! j), vm)) \<or>
          ((\<forall>i. n \<le> i \<and> i < length es \<longrightarrow> fst (es ! i) = VAR_UNDEF) \<and>
              varIterate vm (VAR_OBJ p) s v = Returns (False, s, v, vm))"
  proof (cases "length es \<le> ?j")
    case True
    then have "\<forall>i. n \<le> i \<and> i < length es \<longrightarrow> fst (es ! i) = VAR_UNDEF"
      using mapNextSlot_end_iff [of es n] by (simp add: occupied_def)
    with True show ?thesis by (simp add: varIterate_map [OF assms(1) it])
  next
    case False
    then have j: "?j < length es" by simp
    have "n \<le> ?j" by (rule mapNextSlot_ge)
    moreover have "fst (es ! ?j) \<noteq> VAR_UNDEF"
      using mapNextSlot_occupied [OF j] by (simp add: occupied_def)
    moreover have "varIterate vm (VAR_OBJ p) s v =
                     Returns (True, VAR_NUM (real (Suc ?j)), fst (es ! ?j), vm)"
      using False by (simp add: varIterate_map [OF assms(1) it])
    ultimately show ?thesis using j by blast
  qed
next
  assume small: "length es < 2 ^ 31"
  have "length (filter (occupied es) [0..<length es]) < Suc (length es)"
    using length_filter_upt [of "occupied es" 0 "length es"] by simp
  from iterate_map_from [OF assms(1) small iter_of_null this]
  show "\<exists>steps. iterate_from (Suc (length es)) vm (VAR_OBJ p) VAR_NULL = Returns (steps, True)"
    by blast
qed

theorem map_iterate_progress_witness:
  "deref vm_map 0 = Some (ObjMap [(VAR_UNDEF, VAR_BOOL False), (VAR_NUM 1, VAR_NUM 10)]) \<and>
   varIterate vm_map (VAR_OBJ 0) VAR_NULL VAR_NULL = Returns (True, VAR_NUM 2, VAR_NUM 1, vm_map) \<and>
   (\<exists>steps. iterate_from 3 vm_map (VAR_OBJ 0) VAR_NULL = Returns (steps, True))"
proof -
  let ?es = "[(VAR_UNDEF, VAR_BOOL False), (VAR_NUM 1, VAR_NUM 10)]"
  have a: "deref vm_map 0 = Some (ObjMap ?es)"
    by (simp add: deref_def vm_map_def)
  have b: "VAR_NULL = VAR_NULL \<and> (0::nat) = 0 \<or> VAR_NULL = VAR_NUM (real (0::nat)) \<and> (0::nat) < 2 ^ 31"
    by simp
  note t = map_iterate_progress [OF a b, of VAR_NULL]
  from t have chain: "\<exists>steps. iterate_from 3 vm_map (VAR_OBJ 0) VAR_NULL = Returns (steps, True)"
    by (simp add: numeral_3_eq_3)
  from t have "(\<exists>j. j < 2 \<and> fst (?es ! j) \<noteq> VAR_UNDEF \<and>
                 varIterate vm_map (VAR_OBJ 0) VAR_NULL VAR_NULL =
                   Returns (True, VAR_NUM (real (Suc j)), fst (?es ! j), vm_map)) \<or>
               (\<forall>i<2. fst (?es ! i) = VAR_UNDEF)"
    by auto
  then have "varIterate vm_map (VAR_OBJ 0) VAR_NULL VAR_NULL =
               Returns (True, VAR_NUM 2, VAR_NUM 1, vm_map)"
    by (auto simp: less_2_cases_iff)
  with a chain show ?thesis by simp
qed

text \<open>
  C5 as stated fails for Maps: the iterator state is the resume index, not the number
  of completed steps. In the map of \<open>vm_map\<close> slot 0 is empty and slot 1 occupied; the
  first call yields the key of slot 1 and leaves the state 2 after one step.
\<close>

theorem iterator_state_counterexample:
  "iterate_from 2 vm_map (VAR_OBJ 0) VAR_NULL = Returns ([(VAR_NUM 1, VAR_NUM 2)], True) \<and>
   \<not> counts_steps [(VAR_NUM 1, VAR_NUM 2)]"
  by (simp add: numeral_2_eq_2 varIterate_def iter_of_def deref_def vm_map_def
      mapNextSlot.simps counts_steps_def trunc_def cast_int32_def uint32_of_int32_def)

text \<open>
  C5, amended. The iterator state is Null before the first call and a non-negative
  integer Number after every successful call. For Strings, Lists and Ranges it is the
  number of completed steps (for any chain of fewer than \<open>2 ^ 31\<close> calls). For Maps it
  is the index of the slot just yielded plus one: the chain from Null yields the keys of
  the occupied slots in ascending slot order, skipping empty and tombstoned slots, and
  a call stops the iteration exactly when no occupied slot remains at or after the
  resume index.
\<close>

theorem iterator_state_protocol:
  "(deref vm p = Some ob \<and> obj_type ob \<in> {OBJ_STRING, OBJ_LIST, OBJ_RANGE} \<and> n < 2 ^ 31 \<longrightarrow>
      (\<exists>steps stopped. iterate_from n vm (VAR_OBJ p) VAR_NULL = Returns (steps, stopped) \<and>
                       counts_steps steps)) \<and>
   (deref vm p = Some (ObjMap es) \<and> length es < 2 ^ 31 \<longrightarrow>
      iterate_from (Suc (length es)) vm (VAR_OBJ p) VAR_NULL =
        Returns (map (\<lambda>i. (fst (es ! i), VAR_NUM (real (Suc i))))
                     (filter (\<lambda>i. fst (es ! i) \<noteq> VAR_UNDEF) [0..<length es]), True)) \<and>
   (deref vm p = Some (ObjMap es) \<and> iter_of s = Some k \<longrightarrow>
      ((\<exists>s' v' vm'. varIterate vm (VAR_OBJ p) s v = Returns (False, s', v', vm')) \<longleftrightarrow>
       (\<forall>i. k \<le> i \<and> i < length es \<longrightarrow> fst (es ! i) = VAR_UNDEF)))"
proof (intro conjI impI)
  assume a: "deref vm p = Some ob \<and> obj_type ob \<in> {OBJ_STRING, OBJ_LIST, OBJ_RANGE} \<and> n < 2 ^ 31"
  then have "0 + n < (2::nat) ^ 31" by simp
  from iterate_counting_from [OF _ _ iter_of_null this, of ob vm p] a
  show "\<exists>steps stopped. iterate_from n vm (VAR_OBJ p) VAR_NULL = Returns (steps, stopped) \<and>
                        counts_steps steps"
    by (simp add: steps_count_from_def counts_steps_def)
next
  assume "deref vm p = Some (ObjMap es) \<and> length es < 2 ^ 31"
  then have "deref vm p = Some (ObjMap es)" and "length es < 2 ^ 31" by simp_all
  then show "iterate_from (Suc (length es)) vm (VAR_OBJ p) VAR_NULL =
        Returns (map (\<lambda>i. (fst (es ! i), VAR_NUM (real (Suc i))))
                     (filter (\<lambda>i. fst (es ! i) \<noteq> VAR_UNDEF) [0..<length es]), True)"
    by (rule iterate_map_all)
next
  assume "deref vm p = Some (ObjMap es) \<and> iter_of s = Some k"
  then show "(\<exists>s' v' vm'. varIterate vm (VAR_OBJ p) s v = Returns (False, s', v', vm')) \<longleftrightarrow>
       (\<forall>i. k \<le> i \<and> i < length es \<longrightarrow> fst (es ! i) = VAR_UNDEF)"
    using map_iterate_stops_iff by blast
qed

theorem iterator_state_protocol_witness:
  "deref vm_map 0 = Some (ObjMap [(VAR_UNDEF, VAR_BOOL False), (VAR_NUM 1, VAR_NUM 10)]) \<and>
   iterate_from 3 vm_map (VAR_OBJ 0) VAR_NULL = Returns ([(VAR_NUM 1, VAR_NUM 2)], True) \<and>
   deref vm_one_list 0 = Some (ObjList [VAR_NULL, VAR_BOOL True, VAR_NUM 3]) \<and>
   (\<exists>steps stopped. iterate_from 4 vm_one_list (VAR_OBJ 0) VAR_NULL = Returns (steps, stopped) \<and>
                    counts_steps steps)"
proof -
  let ?es = "[(VAR_UNDEF, VAR_BOOL False), (VAR_NUM 1, VAR_NUM 10)]"
  have a: "deref vm_map 0 = Some (ObjMap ?es)"
    by (simp add: deref_def vm_map_def)
  have b: "deref vm_one_list 0 = Some (ObjList [VAR_NULL, VAR_BOOL True, VAR_NUM 3])"
    by (simp add: deref_def vm_one_list_def)
  have u: "[0..<2] = [0, Suc 0]" by (simp add: numeral_2_eq_2)
  from iterator_state_protocol [of vm_map 0 _ _ ?es] a
  have "iterate_from 3 vm_map (VAR_OBJ 0) VAR_NULL = Returns ([(VAR_NUM 1, VAR_NUM 2)], True)"
    by (simp add: numeral_3_eq_3 u)
  moreover from iterator_state_protocol [of vm_one_list 0 "ObjList [VAR_NULL, VAR_BOOL True, VAR_NUM 3]" 4] b
  have "\<exists>steps stopped. iterate_from 4 vm_one_list (VAR_OBJ 0) VAR_NULL = Returns (steps, stopped) \<and>
                    counts_steps steps"
    by simp
  ultimately show ?thesis using a b by simp
qed

section \<open>Iteration over Ranges\<close>

text \<open>
  The Range case stops on \<open>from = to\<close> and on \<open>current = to\<close> and on nothing else. A
  successful call at position \<open>k\<close> yields \<open>from + k\<close> on a straight range and
  \<open>from - k\<close> on a reversed one, never the value \<^verbatim>\<open>to\<close>.
\<close>

lemma varIterate_range_never_yields_to:
  assumes "deref vm p = Some (ObjRange lo hi)"
  shows "varIterate vm (VAR_OBJ p) s v \<noteq> Returns (True, s', VAR_NUM hi, vm')"
  using assms by (auto simp: varIterate_def Let_def split: option.splits)

lemma varIterate_range_empty:
  assumes "deref vm p = Some (ObjRange lo lo)" and "iter_of s = Some k"
  shows "varIterate vm (VAR_OBJ p) s v = Returns (False, s, v, vm)"
  using assms by (simp add: varIterate_def)

lemma varIterate_range_step:
  assumes "deref vm p = Some (ObjRange lo hi)" and "iter_of s = Some k"
  shows "varIterate vm (VAR_OBJ p) s v =
           (if lo = hi \<or> range_at lo hi k = VAR_NUM hi then Returns (False, s, v, vm)
            else Returns (True, VAR_NUM (real (Suc k)), range_at lo hi k, vm))"
  using assms by (simp add: varIterate_def Let_def range_at_def add.commute)

text \<open>
  When the distance between the bounds is a whole number \<open>n\<close>, position \<open>k\<close> meets
  \<^verbatim>\<open>to\<close> exactly at \<open>k = n\<close>: the iteration yields \<open>n\<close> values and stops before \<^verbatim>\<open>to\<close>.
\<close>

lemma range_at_meets:
  assumes "hi = lo + real n \<or> hi = lo - real n"
  shows "(lo = hi \<or> range_at lo hi k = VAR_NUM hi) = (n = 0 \<or> k = n)"
proof (cases "n = 0")
  case True
  with assms show ?thesis by simp
next
  case False
  then have pos: "0 < real n" by simp
  from assms show ?thesis
  proof
    assume h: "hi = lo + real n"
    with pos have "lo \<le> hi" "lo \<noteq> hi" by simp_all
    with h False show ?thesis by (simp add: range_at_def)
  next
    assume h: "hi = lo - real n"
    with pos have "\<not> lo \<le> hi" "lo \<noteq> hi" by simp_all
    with h False show ?thesis by (simp add: range_at_def)
  qed
qed

lemma iterate_range_from:
  assumes "deref vm p = Some (ObjRange lo hi)" and "hi = lo + real n \<or> hi = lo - real n"
    and "n < 2 ^ 31"
  shows "iter_of s = Some k \<Longrightarrow> k \<le> n \<Longrightarrow>
         iterate_from (Suc (n - k)) vm (VAR_OBJ p) s =
           Returns (map (\<lambda>j. (range_at lo hi j, VAR_NUM (real (Suc j)))) [k..<n], True)"
proof (induction "n - k" arbitrary: k s)
  case 0
  then have "k = n" by simp
  with 0 show ?case
    by (simp add: varIterate_range_step [OF assms(1) "0.prems"(1)] range_at_meets [OF assms(2)])
next
  case (Suc d)
  then have lt: "k < n" by simp
  have "Suc k < 2 ^ 31" using lt assms(3) by simp
  then have it': "iter_of (VAR_NUM (real (Suc k))) = Some (Suc k)" by (rule iter_of_nat)
  have d: "d = n - Suc k" using Suc.hyps(2) by simp
  have le': "Suc k \<le> n" using lt by simp
  have fuel: "Suc (n - k) = Suc (Suc (n - Suc k))" using lt by simp
  from Suc.hyps(1) [OF d it' le']
  have rest: "iterate_from (Suc (n - Suc k)) vm (VAR_OBJ p) (VAR_NUM (real (Suc k))) =
           Returns (map (\<lambda>j. (range_at lo hi j, VAR_NUM (real (Suc j)))) [Suc k..<n], True)" .
  have call: "varIterate vm (VAR_OBJ p) s VAR_NULL =
                Returns (True, VAR_NUM (real (Suc k)), range_at lo hi k, vm)"
    using lt
    by (simp add: varIterate_range_step [OF assms(1) Suc.prems(1)] range_at_meets [OF assms(2)])
  have "[k..<n] = k # [Suc k..<n]" using lt by (simp add: upt_conv_Cons)
  then show ?case
    unfolding fuel using call rest by (simp del: of_nat_Suc)
qed

lemma range_iteration_whole_distance:
  assumes "deref vm p = Some (ObjRange lo hi)" and "hi = lo + real n \<or> hi = lo - real n"
    and "n < 2 ^ 31"
  shows "iterate_from (Suc n) vm (VAR_OBJ p) VAR_NULL =
           Returns (map (\<lambda>k. (range_at lo hi k, VAR_NUM (real (Suc k)))) [0..<n], True)"
  using iterate_range_from [OF assms iter_of_null, of ] by simp

text \<open>
  \<open>Range(5, 1)\<close> yields 5, 4, 3, 2; \<open>Range(5, 5)\<close> yields nothing; \<open>Range(1/2, 7/2)\<close>
  yields 1/2, 3/2, 5/2.
\<close>

lemma range_iteration_examples:
  "iterate_from 5 vm_ranges (VAR_OBJ 0) VAR_NULL =
     Returns ([(VAR_NUM 5, VAR_NUM 1), (VAR_NUM 4, VAR_NUM 2),
               (VAR_NUM 3, VAR_NUM 3), (VAR_NUM 2, VAR_NUM 4)], True) \<and>
   iterate_from 1 vm_ranges (VAR_OBJ 1) VAR_NULL = Returns ([], True) \<and>
   iterate_from 4 vm_ranges (VAR_OBJ 3) VAR_NULL =
     Returns ([(VAR_NUM (1 / 2), VAR_NUM 1), (VAR_NUM (3 / 2), VAR_NUM 2),
               (VAR_NUM (5 / 2), VAR_NUM 3)], True)"
proof -
  have d0: "deref vm_ranges 0 = Some (ObjRange 5 1)" by (simp add: deref_def vm_ranges_def)
  have d1: "deref vm_ranges 1 = Some (ObjRange 5 5)" by (simp add: deref_def vm_ranges_def)
  have d3: "deref vm_ranges 3 = Some (ObjRange (1 / 2) (7 / 2))"
    by (simp add: deref_def vm_ranges_def)
  have u4: "[0..<4] = [0, 1, 2, Suc 2]" by (simp add: numeral_eq_Suc upt_conv_Cons)
  have u3: "[0..<3] = [0, 1, Suc 1]" by (simp add: numeral_eq_Suc upt_conv_Cons)
  have "iterate_from (Suc 4) vm_ranges (VAR_OBJ 0) VAR_NULL =
          Returns (map (\<lambda>k. (range_at 5 1 k, VAR_NUM (real (Suc k)))) [0..<4], True)"
    by (rule range_iteration_whole_distance [OF d0]) simp_all
  then have r0: "iterate_from 5 vm_ranges (VAR_OBJ 0) VAR_NULL =
     Returns ([(VAR_NUM 5, VAR_NUM 1), (VAR_NUM 4, VAR_NUM 2),
               (VAR_NUM 3, VAR_NUM 3), (VAR_NUM 2, VAR_NUM 4)], True)"
    by (simp add: u4 range_at_def)
  have "iterate_from (Suc 0) vm_ranges (VAR_OBJ 1) VAR_NULL =
          Returns (map (\<lambda>k. (range_at 5 5 k, VAR_NUM (real (Suc k)))) [0..<0], True)"
    by (rule range_iteration_whole_distance [OF d1]) simp_all
  then have r1: "iterate_from 1 vm_ranges (VAR_OBJ 1) VAR_NULL = Returns ([], True)" by simp
  have "iterate_from (Suc 3) vm_ranges (VAR_OBJ 3) VAR_NULL =
          Returns (map (\<lambda>k. (range_at (1 / 2) (7 / 2) k, VAR_NUM (real (Suc k)))) [0..<3], True)"
    by (rule range_iteration_whole_distance [OF d3]) simp_all
  then have r3: "iterate_from 4 vm_ranges (VAR_OBJ 3) VAR_NULL =
     Returns ([(VAR_NUM (1 / 2), VAR_NUM 1), (VAR_NUM (3 / 2), VAR_NUM 2),
               (VAR_NUM (5 / 2), VAR_NUM 3)], True)"
    by (simp add: u3 range_at_def)
  from r0 r1 r3 show ?thesis by simp
qed

text \<open>
  When no position meets \<^verbatim>\<open>to\<close>, no call stops the iteration: the chain runs on for as
  long as the iterator fits \<^verbatim>\<open>int32_t\<close>.
\<close>

lemma iterate_range_no_stop:
  assumes "deref vm p = Some (ObjRange lo hi)" and "lo \<noteq> hi"
    and "\<forall>j. range_at lo hi j \<noteq> VAR_NUM hi"
  shows "iter_of s = Some k \<Longrightarrow> k + n < 2 ^ 31 \<Longrightarrow>
         iterate_from n vm (VAR_OBJ p) s =
           Returns (map (\<lambda>j. (range_at lo hi j, VAR_NUM (real (Suc j)))) [k..<k + n], False)"
proof (induction n arbitrary: k s)
  case 0
  then show ?case by simp
next
  case (Suc n)
  have "Suc k < 2 ^ 31" using Suc.prems(2) by simp
  then have it': "iter_of (VAR_NUM (real (Suc k))) = Some (Suc k)" by (rule iter_of_nat)
  have "Suc k + n < 2 ^ 31" using Suc.prems(2) by simp
  from Suc.IH [OF it' this]
  have rest: "iterate_from n vm (VAR_OBJ p) (VAR_NUM (real (Suc k))) =
           Returns (map (\<lambda>j. (range_at lo hi j, VAR_NUM (real (Suc j)))) [Suc k..<Suc k + n], False)" .
  have call: "varIterate vm (VAR_OBJ p) s VAR_NULL =
                Returns (True, VAR_NUM (real (Suc k)), range_at lo hi k, vm)"
    using assms(2,3) by (simp add: varIterate_range_step [OF assms(1) Suc.prems(1)])
  have "[k..<k + Suc n] = k # [Suc k..<Suc k + n]" by (simp add: upt_conv_Cons)
  then show ?case using call rest by (simp del: of_nat_Suc upt_Suc)
qed

lemma range_half_never_stops:
  assumes "n < 2 ^ 31"
  shows "iterate_from n vm_ranges (VAR_OBJ 2) VAR_NULL =
           Returns (map (\<lambda>j. (VAR_NUM (real j), VAR_NUM (real (Suc j)))) [0..<n], False)"
proof -
  have d: "deref vm_ranges 2 = Some (ObjRange 0 (1 / 2))" by (simp add: deref_def vm_ranges_def)
  have ne: "real j \<noteq> 1 / 2" for j
  proof
    assume "real j = 1 / 2"
    then have "real (2 * j) = real 1" by simp
    then have "2 * j = 1" by (simp only: of_nat_eq_iff)
    then show False by presburger
  qed
  have "\<forall>j. range_at 0 (1 / 2) j \<noteq> VAR_NUM (1 / 2)" using ne by (simp add: range_at_def)
  from iterate_range_no_stop [OF d _ this iter_of_null, of n] assms
  show ?thesis by (simp add: range_at_def)
qed

text \<open>
  C1. \<open>Range(0, 1/2)\<close> iterated from Null: \<^verbatim>\<open>varIterate\<close> means to stop at \<^verbatim>\<open>to\<close> but tests
  \<open>current = to\<close> only, and the values 0, 1, 2, ... step over one half. The second call
  yields 1, which lies beyond \<^verbatim>\<open>to\<close>, and the iteration has not stopped, where the
  property asks for an iteration from \<^verbatim>\<open>from\<close> in steps of one that stops strictly
  before \<^verbatim>\<open>to\<close>.
\<close>

theorem range_iteration_steps_over:
  "iterate_from 2 vm_ranges (VAR_OBJ 2) VAR_NULL =
     Returns ([(VAR_NUM 0, VAR_NUM 1), (VAR_NUM 1, VAR_NUM 2)], False) \<and>
   \<not> range_values_before 0 (1 / 2) [(VAR_NUM 0, VAR_NUM 1), (VAR_NUM 1, VAR_NUM 2)]"
proof -
  have it: "iter_of (VAR_NUM 1) = Some 1" using iter_of_nat [of 1] by simp
  have d: "deref vm_ranges 2 = Some (ObjRange 0 (1 / 2))" by (simp add: deref_def vm_ranges_def)
  have c1: "varIterate vm_ranges (VAR_OBJ 2) VAR_NULL VAR_NULL =
              Returns (True, VAR_NUM 1, VAR_NUM 0, vm_ranges)"
    using d by (simp add: varIterate_def iter_of_null)
  have c2: "varIterate vm_ranges (VAR_OBJ 2) (VAR_NUM 1) VAR_NULL =
              Returns (True, VAR_NUM 2, VAR_NUM 1, vm_ranges)"
    using d it by (simp add: varIterate_def)
  show ?thesis
    using c1 c2 by (simp add: numeral_2_eq_2 range_values_before_def)
qed

end
